theory Spec2Isabelle
  imports Complex_Main "HOL-Library.Word" "HOL-Library.Sublist"
begin

section \<open>Python values\<close>

text \<open>
  A Python \<open>str\<close> is a sequence of Unicode code points, and \<open>len\<close> counts code points.
  The report labels of the programs are Japanese, so a string is modelled as the list of
  its code points; \<open>ascii\<close> embeds an ASCII literal.
\<close>

type_synonym pystr = "nat list"

definition ascii :: "string \<Rightarrow> pystr" where
  "ascii s = map of_char s"

text \<open>
  A Whisper segment is a dict with the keys \<open>start\<close>, \<open>end\<close> and \<open>text\<close> (the other keys
  Whisper adds are never read by the programs). \<open>detect_speakers\<close> adds the key
  \<open>speaker\<close>, which \<open>save_transcript\<close> reads with \<open>segment.get('speaker', '?')\<close>: the key
  is optional. Times are Python floats; they are modelled as reals, so the subtraction of
  \<open>detect_speakers\<close> is exact here.
\<close>

record segment =
  seg_start :: real
  seg_end :: real
  seg_text :: pystr
  seg_speaker :: "int option"

section \<open>MP4TranscriptionApp.detect_speakers\<close>

text \<open>
  One pass of the body of \<open>for i, segment in enumerate(segments)\<close> (lines 141 to 154 of
  \<open>mp4_transcription.py\<close>). The loop state is \<open>(current_speaker, speaker_segments)\<close>;
  \<open>segment.copy()\<close> followed by the assignment of \<open>'speaker'\<close> is the record update.
\<close>

definition speaker_step ::
  "segment list \<Rightarrow> real \<Rightarrow> nat \<Rightarrow> int \<times> segment list \<Rightarrow> int \<times> segment list" where
  "speaker_step segments min_pause i st =
     (case st of (current_speaker, speaker_segments) \<Rightarrow>
        let segment = segments ! i;
            current_speaker' =
              (if i > 0 then
                 (let prev_end = seg_end (segments ! (i - 1));
                      current_start = seg_start segment;
                      pause_duration = current_start - prev_end
                  in if pause_duration \<ge> min_pause then current_speaker + 1
                     else current_speaker)
               else current_speaker)
        in (current_speaker',
            speaker_segments @ [segment\<lparr>seg_speaker := Some current_speaker'\<rparr>]))"

text \<open>
  \<open>detect_speakers(segments, min_pause)\<close>: the empty input returns \<open>[]\<close> at once; otherwise
  the loop runs over the indices \<open>0 .. len(segments) - 1\<close> from \<open>current_speaker = 1\<close>.
\<close>

definition detect_speakers :: "segment list \<Rightarrow> real \<Rightarrow> segment list" where
  "detect_speakers segments min_pause =
     (if segments = [] then []
      else snd (fold (speaker_step segments min_pause) [0..<length segments] (1, [])))"

definition default_min_pause :: real where
  "default_min_pause = 2.0"

text \<open>A segment with the given start and end, no text and no speaker key.\<close>

definition timed :: "real \<Rightarrow> real \<Rightarrow> segment" where
  "timed s e = \<lparr>seg_start = s, seg_end = e, seg_text = [], seg_speaker = None\<rparr>"

section \<open>Strings of the Python runtime\<close>

text \<open>
  \<open>str.strip()\<close> removes leading and trailing white space; \<open>py_isspace\<close> lists the code
  points CPython treats as white space.
\<close>

definition py_isspace :: "nat \<Rightarrow> bool" where
  "py_isspace c =
     ((9 \<le> c \<and> c \<le> 13) \<or> (28 \<le> c \<and> c \<le> 32) \<or> c = 133 \<or> c = 160 \<or> c = 5760
      \<or> (8192 \<le> c \<and> c \<le> 8202) \<or> c = 8232 \<or> c = 8233 \<or> c = 8239 \<or> c = 8287
      \<or> c = 12288)"

definition strip :: "pystr \<Rightarrow> pystr" where
  "strip s = rev (dropWhile py_isspace (rev (dropWhile py_isspace s)))"

datatype py_error = ValueError | OSError | OverflowError | RuntimeError | TypeError | IndexError

section \<open>TeamsTranscriptionApp: the streaming worker\<close>

type_synonym byte = "8 word"

definition sample_rate :: nat where
  "sample_rate = 16000"

text \<open>
  \<open>buffer_size = int(self.sample_rate * buffer_duration * 2)\<close> with
  \<open>buffer_duration = 3.0\<close>: a byte count. The window of 3 s holds
  \<open>target_window_samples\<close> samples of two bytes each.
\<close>

definition buffer_size :: nat where
  "buffer_size = sample_rate * 3 * 2"

definition target_window_samples :: nat where
  "target_window_samples = sample_rate * 3"

text \<open>\<open>overlap = buffer_size // 4\<close>.\<close>

definition overlap :: nat where
  "overlap = buffer_size div 4"

text \<open>
  \<open>np.frombuffer(audio_data, dtype=np.int16)\<close>: the samples of a byte string, two bytes
  each, low byte first; a byte string of odd length raises \<open>ValueError\<close>.
\<close>

fun frombuffer_int16 :: "byte list \<Rightarrow> py_error + 16 word list" where
  "frombuffer_int16 [] = Inr []"
| "frombuffer_int16 [b] = Inl ValueError"
| "frombuffer_int16 (lo # hi # bs) =
     (case frombuffer_int16 bs of
        Inl e \<Rightarrow> Inl e
      | Inr samples \<Rightarrow> Inr (word_cat hi lo # samples))"

text \<open>
  What the worker does not compute itself: the Whisper model (the text of its result,
  or the exception it raises), the wall clock read by \<open>datetime.now()\<close> (indexed by the
  number of model calls made so far), and the append of one line to the output file
  (the new content of the file, or the exception of \<open>open\<close> or \<open>write\<close>).
\<close>

record streaming_env =
  model_transcribe :: "16 word list \<Rightarrow> py_error + pystr"
  clock :: "nat \<Rightarrow> pystr"
  file_append :: "pystr \<Rightarrow> pystr \<Rightarrow> py_error + pystr"

text \<open>
  The state of \<open>transcription_worker\<close>: its local \<open>audio_buffer\<close>, the content of the
  output file (\<open>file_content\<close>), and two logs: the audio of every call of \<open>self.model.transcribe\<close> in call
  order, and the exceptions handed to \<open>self.logger.error\<close>.
\<close>

record worker =
  audio_buffer :: "byte list"
  asr_calls :: "16 word list list"
  file_content :: pystr
  error_log :: "py_error list"

definition init_worker :: "pystr \<Rightarrow> worker" where
  "init_worker header =
     \<lparr>audio_buffer = [], asr_calls = [], file_content = header, error_log = []\<rparr>"

text \<open>
  \<open>transcribe_audio_chunk\<close> (lines 68 to 86): audio shorter than 0.5 s returns \<open>None\<close>
  without a model call (the test \<open>len(audio_np) < self.sample_rate * 0.5\<close> is written
  without the fraction); every exception is logged and gives \<open>None\<close>; an empty text
  after \<open>strip()\<close> gives \<open>None\<close>.
\<close>

definition transcribe_audio_chunk ::
  "streaming_env \<Rightarrow> byte list \<Rightarrow> worker \<Rightarrow> pystr option \<times> worker" where
  "transcribe_audio_chunk env audio_data w =
     (case frombuffer_int16 audio_data of
        Inl e \<Rightarrow> (None, w\<lparr>error_log := error_log w @ [e]\<rparr>)
      | Inr audio_np \<Rightarrow>
          if 2 * length audio_np < sample_rate then (None, w)
          else
            (let w' = w\<lparr>asr_calls := asr_calls w @ [audio_np]\<rparr> in
             case model_transcribe env audio_np of
               Inl e \<Rightarrow> (None, w'\<lparr>error_log := error_log w' @ [e]\<rparr>)
             | Inr result_text \<Rightarrow>
                 (let text = strip result_text
                  in (if text \<noteq> [] then Some text else None, w'))))"

text \<open>The line \<open>f"[{timestamp}] {text}\n"\<close>.\<close>

definition output_line :: "pystr \<Rightarrow> pystr \<Rightarrow> pystr" where
  "output_line timestamp text = ascii ''['' @ timestamp @ ascii ''] '' @ text @ [10]"

text \<open>\<open>audio_buffer[-overlap:]\<close> for a positive \<open>overlap\<close>: the last \<open>overlap\<close> bytes, or
  the whole buffer when it is shorter.\<close>

definition last_bytes :: "nat \<Rightarrow> byte list \<Rightarrow> byte list" where
  "last_bytes n b = drop (length b - n) b"

text \<open>
  One pass of the body of the \<open>while\<close> loop (lines 95 to 124). \<open>got\<close> is the chunk taken
  from the queue in this pass, \<open>None\<close> when the queue was empty. An exception raised
  while the line is written is caught by \<open>except Exception\<close> at the end of the body, so
  the two lines that trim the buffer are skipped in that pass. The worker is the only
  consumer of the queue, so \<open>get\<close> after the test \<open>not self.audio_queue.empty()\<close> returns
  a chunk and \<open>queue.Empty\<close> is not raised. The \<open>print\<close> to the console is left out.
\<close>

definition worker_iteration :: "streaming_env \<Rightarrow> byte list option \<Rightarrow> worker \<Rightarrow> worker" where
  "worker_iteration env got w =
     (let w1 = (case got of
                  Some audio_data \<Rightarrow> w\<lparr>audio_buffer := audio_buffer w @ audio_data\<rparr>
                | None \<Rightarrow> w)
      in if length (audio_buffer w1) \<ge> buffer_size then
           (case transcribe_audio_chunk env (audio_buffer w1) w1 of
              (None, w2) \<Rightarrow> w2\<lparr>audio_buffer := last_bytes overlap (audio_buffer w2)\<rparr>
            | (Some text, w2) \<Rightarrow>
                (let timestamp = clock env (length (asr_calls w2));
                     line = output_line timestamp text
                 in case file_append env (file_content w2) line of
                      Inl e \<Rightarrow> w2\<lparr>error_log := error_log w2 @ [e]\<rparr>
                    | Inr content \<Rightarrow>
                        w2\<lparr>file_content := content,
                           audio_buffer := last_bytes overlap (audio_buffer w2)\<rparr>))
         else w1)"


text \<open>
  After \<open>is_recording\<close> is set to false the callback enqueues nothing more, and the loop
  condition \<open>self.is_recording or not self.audio_queue.empty()\<close> holds exactly while the
  queue has a chunk: each pass takes one, and the function returns when the queue is
  empty. Nothing follows the loop.
\<close>

fun worker_stopped :: "streaming_env \<Rightarrow> byte list list \<Rightarrow> worker \<Rightarrow> worker" where
  "worker_stopped env [] w = w"
| "worker_stopped env (audio_data # queue) w =
     worker_stopped env queue (worker_iteration env (Some audio_data) w)"

text \<open>An environment for examples: the model hears "ok", the file takes every line.\<close>

definition demo_env :: streaming_env where
  "demo_env = \<lparr>model_transcribe = (\<lambda>audio. Inr (ascii ''ok'')),
               clock = (\<lambda>n. ascii ''2024-01-01 00:00:00''),
               file_append = (\<lambda>content line. Inr (content @ line))\<rparr>"


section \<open>MP4TranscriptionApp: formatting and the report\<close>

text \<open>\<open>str(n)\<close> for an integer: its decimal digits, with a minus sign when negative.\<close>

fun digits :: "nat \<Rightarrow> pystr" where
  "digits n = (if n < 10 then [48 + n] else digits (n div 10) @ [48 + n mod 10])"

declare digits.simps [simp del]

definition str_int :: "int \<Rightarrow> pystr" where
  "str_int i = (if i < 0 then 45 # digits (nat (- i)) else digits (nat i))"

text \<open>
  The format \<open>{x:02d}\<close>: the decimal digits, padded with a zero on the left to width 2
  (a negative number already has width 2 with its sign).
\<close>

definition format_02d :: "int \<Rightarrow> pystr" where
  "format_02d i =
     (if i < 0 then str_int i
      else if length (str_int i) < 2 then 48 # str_int i else str_int i)"

text \<open>
  \<open>timedelta(seconds=seconds)\<close> keeps whole microseconds, rounding half to even, and
  raises \<open>OverflowError\<close> when the number of days is beyond 999999999 in absolute value.
\<close>

definition round_half_even :: "real \<Rightarrow> int" where
  "round_half_even x =
     (let f = \<lfloor>x\<rfloor>; d = x - of_int f
      in if d < 1/2 then f else if d > 1/2 then f + 1 else if even f then f else f + 1)"

definition timedelta_microseconds :: "real \<Rightarrow> py_error + int" where
  "timedelta_microseconds seconds =
     (let us = round_half_even (seconds * 1000000);
          days = us div 86400000000
      in if days < - 999999999 \<or> days > 999999999 then Inl OverflowError else Inr us)"

text \<open>\<open>int(td.total_seconds())\<close>: the whole seconds, truncated towards zero.\<close>

definition int_total_seconds :: "int \<Rightarrow> int" where
  "int_total_seconds us = (if us \<ge> 0 then us div 1000000 else - ((- us) div 1000000))"

text \<open>\<open>format_timestamp\<close> (lines 78 to 92); \<open>divmod\<close> is floor division, as \<open>div\<close> and \<open>mod\<close> on \<open>int\<close>.\<close>

definition format_timestamp :: "real \<Rightarrow> py_error + pystr" where
  "format_timestamp seconds =
     (case timedelta_microseconds seconds of
        Inl e \<Rightarrow> Inl e
      | Inr us \<Rightarrow>
          (let total_seconds = int_total_seconds us;
               hours = total_seconds div 3600;
               remainder = total_seconds mod 3600;
               minutes = remainder div 60;
               secs = remainder mod 60
           in Inr (format_02d hours @ ascii '':'' @ format_02d minutes @ ascii '':''
                   @ format_02d secs)))"

text \<open>
  The result of Whisper: a dict with the keys \<open>text\<close> and \<open>segments\<close>, and \<open>language\<close>, which
  \<open>save_transcript\<close> reads with \<open>result.get('language', 'unknown')\<close>.
\<close>

record asr_result =
  res_text :: pystr
  res_segments :: "segment list"
  res_language :: "pystr option"

record mp4_app =
  model_size :: pystr
  output_dir :: pystr

text \<open>
  What \<open>save_transcript\<close> takes from its surroundings: \<open>Path(p).stem\<close> and \<open>os.path.join\<close>,
  the two readings of \<open>datetime.now()\<close> (for the file name and for the header), whether
  \<open>open\<close> succeeds, and how many calls of \<open>f.write\<close> succeed before one raises \<open>OSError\<close>
  (\<open>None\<close>: every call succeeds).
\<close>

record batch_env =
  path_stem :: "pystr \<Rightarrow> pystr"
  path_join :: "pystr \<Rightarrow> pystr \<Rightarrow> pystr"
  now_file_name :: pystr
  now_header :: pystr
  open_ok :: bool
  write_limit :: "nat option"

text \<open>The Japanese literals of the report, as code points.\<close>

definition title_label :: pystr where
  \<comment> \<open>"MP4" and U+52D5 U+753B U+30D5 U+30A1 U+30A4 U+30EB U+97F3 U+58F0 U+6587 U+5B57 U+8D77
      U+3053 U+3057 U+7D50 U+679C: the title line\<close>
  "title_label = [77, 80, 52, 21205, 30011, 12501, 12449, 12452, 12523, 38899, 22768, 25991,
                  23383, 36215, 12371, 12375, 32080, 26524]"

definition source_file_label :: pystr where
  \<comment> \<open>source file, colon, space\<close>
  "source_file_label = [20803, 12501, 12449, 12452, 12523, 58, 32]"

definition processed_at_label :: pystr where
  \<comment> \<open>processing date and time, colon, space\<close>
  "processed_at_label = [20966, 29702, 26085, 26178, 58, 32]"

definition whisper_model_label :: pystr where
  \<comment> \<open>"Whisper" model, colon, space\<close>
  "whisper_model_label = [87, 104, 105, 115, 112, 101, 114, 12514, 12487, 12523, 58, 32]"

definition language_label :: pystr where
  \<comment> \<open>detected language, colon, space\<close>
  "language_label = [26908, 20986, 35328, 35486, 58, 32]"

definition full_text_label :: pystr where
  \<comment> \<open>U+3010 U+5168 U+6587 U+3011: the heading of the full text\<close>
  "full_text_label = [12304, 20840, 25991, 12305]"

definition detail_label :: pystr where
  \<comment> \<open>the heading of the details (with timestamps)\<close>
  "detail_label = [12304, 35443, 32048, 65288, 12479, 12452, 12512, 12473, 12479, 12531, 12503,
                   20184, 12365, 65289, 12305]"

definition speaker_label :: pystr where
  \<comment> \<open>U+8A71 U+8005: speaker\<close>
  "speaker_label = [35441, 32773]"

definition statistics_label :: pystr where
  \<comment> \<open>the heading of the statistics\<close>
  "statistics_label = [12304, 32113, 35336, 24773, 22577, 12305]"

definition total_duration_label :: pystr where
  \<comment> \<open>total speech time, colon, space\<close>
  "total_duration_label = [32207, 30330, 35441, 26178, 38291, 58, 32]"

definition segment_count_label :: pystr where
  \<comment> \<open>number of segments, colon, space\<close>
  "segment_count_label = [12475, 12464, 12513, 12531, 12488, 25968, 58, 32]"

definition speaker_count_label :: pystr where
  \<comment> \<open>estimated number of speakers, colon, space\<close>
  "speaker_count_label = [25512, 23450, 35441, 32773, 25968, 58, 32]"

definition char_count_label :: pystr where
  \<comment> \<open>total number of characters, colon, space\<close>
  "char_count_label = [32207, 25991, 23383, 25968, 58, 32]"

text \<open>
  The body of the \<open>with\<close> block of \<open>save_transcript\<close> is a sequence of steps in program
  order. Each step is either a string handed to \<open>f.write\<close> (\<open>Inr\<close>) or an exception
  raised while the string is computed (\<open>Inl\<close>). The \<open>print\<close> calls are left out.
\<close>

type_synonym write_step = "py_error + pystr"

text \<open>The header, lines 179 to 186.\<close>

definition header_steps :: "mp4_app \<Rightarrow> batch_env \<Rightarrow> asr_result \<Rightarrow> pystr \<Rightarrow> write_step list" where
  "header_steps app env result mp4_path =
     [Inr (replicate 60 61 @ [10]),
      Inr (title_label @ [10]),
      Inr (replicate 60 61 @ [10]),
      Inr (source_file_label @ mp4_path @ [10]),
      Inr (processed_at_label @ now_header env @ [10]),
      Inr (whisper_model_label @ model_size app @ [10]),
      Inr (language_label
           @ (case res_language result of None \<Rightarrow> ascii ''unknown'' | Some l \<Rightarrow> l) @ [10]),
      Inr (replicate 60 61 @ [10, 10])]"

text \<open>The full text block, lines 194 to 197; \<open>full_text = result['text'].strip()\<close>.\<close>

definition full_text_steps :: "asr_result \<Rightarrow> write_step list" where
  "full_text_steps result =
     [Inr (full_text_label @ [10]),
      Inr (replicate 40 45 @ [10]),
      Inr (strip (res_text result) @ [10, 10])]"

text \<open>
  One pass of \<open>for segment in segments\<close>, lines 204 to 217. Both timestamps are
  formatted before the flags are looked at.
\<close>

definition detail_line :: "bool \<Rightarrow> bool \<Rightarrow> segment \<Rightarrow> write_step" where
  "detail_line include_speakers include_timestamps segment =
     (case format_timestamp (seg_start segment) of
        Inl e \<Rightarrow> Inl e
      | Inr start_time \<Rightarrow>
          (case format_timestamp (seg_end segment) of
             Inl e \<Rightarrow> Inl e
           | Inr end_time \<Rightarrow>
               (let text = strip (seg_text segment) in
                if include_timestamps \<and> include_speakers then
                  (let speaker_info = speaker_label
                         @ (case seg_speaker segment of None \<Rightarrow> ascii ''?'' | Some k \<Rightarrow> str_int k)
                   in Inr (ascii ''['' @ start_time @ ascii '' - '' @ end_time @ ascii ''] ''
                           @ speaker_info @ ascii '': '' @ text @ [10]))
                else if include_timestamps then
                  Inr (ascii ''['' @ start_time @ ascii '' - '' @ end_time @ ascii ''] ''
                       @ text @ [10])
                else Inr (text @ [10]))))"

definition detail_steps :: "bool \<Rightarrow> bool \<Rightarrow> segment list \<Rightarrow> write_step list" where
  "detail_steps include_speakers include_timestamps segments =
     [Inr (detail_label @ [10]), Inr (replicate 40 45 @ [10])]
     @ map (detail_line include_speakers include_timestamps) segments"

text \<open>\<open>max\<close> of a list of integers raises \<open>ValueError\<close> on the empty list.\<close>

fun py_max :: "int list \<Rightarrow> py_error + int" where
  "py_max [] = Inl ValueError"
| "py_max (x # xs) = Inr (fold max xs x)"

text \<open>The statistics, lines 220 to 227.\<close>

definition stats_steps :: "bool \<Rightarrow> segment list \<Rightarrow> pystr \<Rightarrow> write_step list" where
  "stats_steps include_speakers segments full_text =
     [Inr ([10] @ replicate 60 61 @ [10]),
      Inr (statistics_label @ [10]),
      (case format_timestamp (if segments \<noteq> [] then seg_end (last segments) else 0) of
         Inl e \<Rightarrow> Inl e
       | Inr t \<Rightarrow> Inr (total_duration_label @ t @ [10])),
      Inr (segment_count_label @ str_int (int (length segments)) @ [10])]
     @ (if include_speakers then
          [case (if segments \<noteq> []
                 then py_max (map (\<lambda>s. case seg_speaker s of None \<Rightarrow> 1 | Some k \<Rightarrow> k) segments)
                 else Inr 1) of
             Inl e \<Rightarrow> Inl e
           | Inr max_speaker \<Rightarrow> Inr (speaker_count_label @ str_int max_speaker @ [10])]
        else [])
     @ [Inr (char_count_label @ str_int (int (length full_text)) @ [10])]"

text \<open>
  All steps of the \<open>with\<close> block, lines 178 to 227: \<open>segments\<close> is \<open>result['segments']\<close>,
  replaced by the output of \<open>detect_speakers\<close> (with the default \<open>min_pause\<close>) when
  \<open>include_speakers\<close> is set.
\<close>

definition report_steps ::
  "mp4_app \<Rightarrow> batch_env \<Rightarrow> asr_result \<Rightarrow> pystr \<Rightarrow> bool \<Rightarrow> bool \<Rightarrow> write_step list" where
  "report_steps app env result mp4_path include_speakers include_timestamps =
     (let segments = (if include_speakers
                      then detect_speakers (res_segments result) default_min_pause
                      else res_segments result);
          full_text = strip (res_text result)
      in header_steps app env result mp4_path
         @ full_text_steps result
         @ detail_steps include_speakers include_timestamps segments
         @ stats_steps include_speakers segments full_text)"

text \<open>
  Running the steps against the open file: \<open>written\<close> is what the file holds so far. The
  run stops at the first step that raises, or at the first \<open>f.write\<close> beyond the limit of
  the environment, which raises \<open>OSError\<close>; the file keeps what was written before.
\<close>

fun f_write_all :: "nat option \<Rightarrow> write_step list \<Rightarrow> pystr \<Rightarrow> pystr \<times> py_error option" where
  "f_write_all limit [] written = (written, None)"
| "f_write_all limit (Inl e # steps) written = (written, Some e)"
| "f_write_all limit (Inr s # steps) written =
     (case limit of
        None \<Rightarrow> f_write_all None steps (written @ s)
      | Some 0 \<Rightarrow> (written, Some OSError)
      | Some (Suc k) \<Rightarrow> f_write_all (Some k) steps (written @ s))"

text \<open>The name of the report, lines 172 to 174.\<close>

definition output_path :: "mp4_app \<Rightarrow> batch_env \<Rightarrow> pystr \<Rightarrow> pystr" where
  "output_path app env mp4_path =
     path_join env (output_dir app)
       (path_stem env mp4_path @ ascii ''_transcript_'' @ now_file_name env @ ascii ''.txt'')"

text \<open>
  \<open>save_transcript\<close> (lines 158 to 234) on a file system, a map from paths to contents.
  \<open>open(output_file, 'w')\<close> creates or empties the file; the \<open>with\<close> block closes it on
  every exit, and \<open>except Exception\<close> logs and raises again, so a failure after \<open>open\<close>
  leaves at \<open>output_file\<close> what had been written. The result is the new file system and
  either the exception or the returned path.
\<close>

definition save_transcript ::
  "mp4_app \<Rightarrow> batch_env \<Rightarrow> (pystr \<rightharpoonup> pystr) \<Rightarrow> asr_result \<Rightarrow> pystr \<Rightarrow> bool \<Rightarrow> bool
     \<Rightarrow> (pystr \<rightharpoonup> pystr) \<times> (py_error + pystr)" where
  "save_transcript app env fs result mp4_path include_speakers include_timestamps =
     (let output_file = output_path app env mp4_path in
      if \<not> open_ok env then (fs, Inl OSError)
      else
        (case f_write_all (write_limit env)
                (report_steps app env result mp4_path include_speakers include_timestamps) [] of
           (written, None) \<Rightarrow> (fs(output_file \<mapsto> written), Inr output_file)
         | (written, Some e) \<Rightarrow> (fs(output_file \<mapsto> written), Inl e)))"

text \<open>Values for examples.\<close>

definition demo_app :: mp4_app where
  "demo_app = \<lparr>model_size = ascii ''base'', output_dir = ascii ''transcriptions''\<rparr>"

definition demo_batch_env :: "nat option \<Rightarrow> batch_env" where
  "demo_batch_env limit =
     \<lparr>path_stem = (\<lambda>p. ascii ''talk''),
      path_join = (\<lambda>d f. d @ ascii ''/'' @ f),
      now_file_name = ascii ''20240101_000000'',
      now_header = ascii ''2024-01-01 00:00:00'',
      open_ok = True,
      write_limit = limit\<rparr>"

definition demo_result :: "pystr \<Rightarrow> segment list \<Rightarrow> asr_result" where
  "demo_result t segments = \<lparr>res_text = t, res_segments = segments, res_language = Some (ascii ''ja'')\<rparr>"

text \<open>What a sequence of steps writes when every one of them is carried out.\<close>

definition written_by :: "write_step list \<Rightarrow> pystr" where
  "written_by steps = concat (map (case_sum (\<lambda>e. []) (\<lambda>s. s)) steps)"

definition demo_segment :: segment where
  "demo_segment = \<lparr>seg_start = 0, seg_end = 1, seg_text = ascii ''hi'', seg_speaker = Some 1\<rparr>"

section \<open>BatchMP4Processor\<close>

text \<open>
  The processor keeps the two lists \<open>processed_files\<close> and \<open>failed_files\<close>. \<open>attempted\<close> is
  a log added by the model: the paths \<open>process_mp4\<close> was called with, in call order.
\<close>

record processor =
  processed_files :: "(pystr \<times> pystr) list"
  failed_files :: "(pystr \<times> pystr) list"
  attempted :: "pystr list"

text \<open>\<open>__init__\<close>: both lists start empty.\<close>

definition new_processor :: processor where
  "new_processor = \<lparr>processed_files = [], failed_files = [], attempted = []\<rparr>"

text \<open>
  The call \<open>self.app.process_mp4(...)\<close> of pass \<open>i\<close> either returns the output file
  (\<open>Inr\<close>) or raises an exception \<open>e\<close>, of which the loop keeps \<open>str(e)\<close> (\<open>Inl\<close>). What the
  call does is left open: \<open>process_files\<close> is modelled for every such behaviour.
\<close>

type_synonym process_mp4_outcome = "nat \<Rightarrow> pystr \<Rightarrow> pystr + pystr"

text \<open>The body of the \<open>for\<close> loop, lines 59 to 82 (without its \<open>print\<close> calls).\<close>

definition process_one :: "process_mp4_outcome \<Rightarrow> nat \<Rightarrow> pystr \<Rightarrow> processor \<Rightarrow> processor" where
  "process_one process_mp4 i mp4_path p =
     (case process_mp4 i mp4_path of
        Inr output_file \<Rightarrow>
          p\<lparr>processed_files := processed_files p @ [(mp4_path, output_file)],
            attempted := attempted p @ [mp4_path]\<rparr>
      | Inl err \<Rightarrow>
          p\<lparr>failed_files := failed_files p @ [(mp4_path, err)],
            attempted := attempted p @ [mp4_path]\<rparr>)"

text \<open>\<open>for i, mp4_path in enumerate(file_paths, 1)\<close>, from the counter \<open>i\<close> on.\<close>

fun process_loop :: "process_mp4_outcome \<Rightarrow> nat \<Rightarrow> pystr list \<Rightarrow> processor \<Rightarrow> processor" where
  "process_loop process_mp4 i [] p = p"
| "process_loop process_mp4 i (mp4_path # file_paths) p =
     process_loop process_mp4 (Suc i) file_paths (process_one process_mp4 i mp4_path p)"

definition completed_heading :: pystr where
  \<comment> \<open>U+1F389, space, and the words for: batch processing completed\<close>
  "completed_heading = [127881, 32, 19968, 25324, 20966, 29702, 23436, 20102]"

definition total_time_label :: pystr where
  \<comment> \<open>U+23F1 U+FE0F, two spaces, total processing time, colon, space\<close>
  "total_time_label = [9201, 65039, 32, 32, 32207, 20966, 29702, 26178, 38291, 58, 32]"

definition succeeded_label :: pystr where
  \<comment> \<open>U+2705, space, success, colon, space\<close>
  "succeeded_label = [9989, 32, 25104, 21151, 58, 32]"

definition failed_label :: pystr where
  \<comment> \<open>U+274C, space, failure, colon, space\<close>
  "failed_label = [10060, 32, 22833, 25943, 58, 32]"

definition files_suffix :: pystr where
  \<comment> \<open>the word for: files\<close>
  "files_suffix = [12501, 12449, 12452, 12523]"

definition succeeded_heading :: pystr where
  \<comment> \<open>the heading of the files that succeeded\<close>
  "succeeded_heading = [12304, 25104, 21151, 12375, 12383, 12501, 12449, 12452, 12523, 12305]"

definition failed_heading :: pystr where
  \<comment> \<open>the heading of the files that failed\<close>
  "failed_heading = [12304, 22833, 25943, 12375, 12383, 12501, 12449, 12452, 12523, 12305]"

text \<open>
  The surroundings of \<open>print_summary\<close>: \<open>Path(p).name\<close>, and the two renderings of the
  elapsed time, \<open>{total_duration:.1f}\<close> and \<open>{total_duration/60:.1f}\<close>.
\<close>

record summary_env =
  path_name :: "pystr \<Rightarrow> pystr"
  seconds_text :: pystr
  minutes_text :: pystr

text \<open>The lines 99 to 102 and 104 to 107: one string for each call of \<open>print\<close>.\<close>

definition succeeded_section :: "summary_env \<Rightarrow> processor \<Rightarrow> pystr list" where
  "succeeded_section env p =
     (if processed_files p \<noteq> [] then
        ([10] @ succeeded_heading)
        # map (\<lambda>(mp4_path, output_file).
                 [32, 32, 128193, 32] @ path_name env mp4_path @ ascii '' -> ''
                 @ path_name env output_file)
            (processed_files p)
      else [])"

definition failed_section :: "summary_env \<Rightarrow> processor \<Rightarrow> pystr list" where
  "failed_section env p =
     (if failed_files p \<noteq> [] then
        ([10] @ failed_heading)
        # map (\<lambda>(mp4_path, err).
                 [32, 32, 10060, 32] @ path_name env mp4_path @ ascii '': '' @ err)
            (failed_files p)
      else [])"

text \<open>\<open>print_summary\<close>, lines 89 to 107.\<close>

definition print_summary :: "summary_env \<Rightarrow> processor \<Rightarrow> pystr list" where
  "print_summary env p =
     [[10] @ replicate 60 61,
      completed_heading,
      replicate 60 61,
      total_time_label @ seconds_text env @ [31186, 32, 40] @ minutes_text env @ [20998, 41],
      succeeded_label @ str_int (int (length (processed_files p))) @ files_suffix,
      failed_label @ str_int (int (length (failed_files p))) @ files_suffix]
     @ succeeded_section env p
     @ failed_section env p"

text \<open>
  \<open>process_files\<close>, lines 51 to 87: the loop, then the summary; the result is the
  processor after the run and the lines of the summary.
\<close>

definition process_files ::
  "process_mp4_outcome \<Rightarrow> summary_env \<Rightarrow> pystr list \<Rightarrow> processor \<Rightarrow> processor \<times> pystr list" where
  "process_files process_mp4 env file_paths p =
     (let p' = process_loop process_mp4 1 file_paths p
      in (p', print_summary env p'))"

text \<open>A batch of three files in which the second call of \<open>process_mp4\<close> raises.\<close>

definition demo_paths :: "pystr list" where
  "demo_paths = [ascii ''a.mp4'', ascii ''b.mp4'', ascii ''c.mp4'']"

definition demo_process_mp4 :: process_mp4_outcome where
  "demo_process_mp4 i mp4_path =
     (if i = 2 then Inl (ascii ''decode failed'') else Inr (mp4_path @ ascii ''.txt''))"

definition demo_summary_env :: summary_env where
  "demo_summary_env = \<lparr>path_name = (\<lambda>p. p), seconds_text = ascii ''90.0'', minutes_text = ascii ''1.5''\<rparr>"

section \<open>detect_speakers on a store of objects\<close>

text \<open>
  In Python the list \<open>segments\<close> and the dicts in it are objects the caller shares with
  \<open>detect_speakers\<close>. To state what the function leaves untouched, the objects are put in
  a store: an address is an index into the store, a dict object holds a segment, a list
  object holds the addresses of its items. New objects are allocated at the end.
\<close>

type_synonym addr = nat

datatype pyobj = Dict segment | PyList "addr list"

type_synonym store = "pyobj list"

definition and_then :: "py_error + 'a \<Rightarrow> ('a \<Rightarrow> py_error + 'b) \<Rightarrow> py_error + 'b" where
  "and_then m f = (case m of Inl e \<Rightarrow> Inl e | Inr x \<Rightarrow> f x)"

definition get_dict :: "store \<Rightarrow> addr \<Rightarrow> py_error + segment" where
  "get_dict h a =
     (if a < length h then (case h ! a of Dict d \<Rightarrow> Inr d | PyList xs \<Rightarrow> Inl TypeError)
      else Inl TypeError)"

definition get_list :: "store \<Rightarrow> addr \<Rightarrow> py_error + addr list" where
  "get_list h a =
     (if a < length h then (case h ! a of PyList xs \<Rightarrow> Inr xs | Dict d \<Rightarrow> Inl TypeError)
      else Inl TypeError)"

text \<open>\<open>xs[i]\<close> for \<open>i \<ge> 0\<close>.\<close>

definition get_item :: "addr list \<Rightarrow> nat \<Rightarrow> py_error + addr" where
  "get_item xs i = (if i < length xs then Inr (xs ! i) else Inl IndexError)"

text \<open>A new object: the store grows by one, the address of the object is returned.\<close>

definition alloc :: "store \<Rightarrow> pyobj \<Rightarrow> store \<times> addr" where
  "alloc h obj = (h @ [obj], length h)"

text \<open>\<open>d['speaker'] = k\<close> on the dict at \<open>a\<close>, and \<open>l.append(x)\<close> on the list at \<open>l\<close>.\<close>

definition set_speaker :: "store \<Rightarrow> addr \<Rightarrow> int \<Rightarrow> py_error + store" where
  "set_speaker h a k =
     and_then (get_dict h a) (\<lambda>d. Inr (h[a := Dict (d\<lparr>seg_speaker := Some k\<rparr>)]))"

definition list_append :: "store \<Rightarrow> addr \<Rightarrow> addr \<Rightarrow> py_error + store" where
  "list_append h l x = and_then (get_list h l) (\<lambda>xs. Inr (h[l := PyList (xs @ [x])]))"

text \<open>
  One pass of the loop of \<open>detect_speakers\<close> on the store (lines 141 to 154): \<open>segments\<close> and
  \<open>speaker_segments\<close> are the addresses of the two lists; the state is the store and
  \<open>current_speaker\<close>.
\<close>

definition store_speaker_step ::
  "addr \<Rightarrow> real \<Rightarrow> addr \<Rightarrow> nat \<Rightarrow> store \<times> int \<Rightarrow> py_error + store \<times> int" where
  "store_speaker_step segments min_pause speaker_segments i st =
     (case st of (h, current_speaker) \<Rightarrow>
        and_then (get_list h segments) (\<lambda>items.
        and_then (get_item items i) (\<lambda>segment_ref.
        and_then (get_dict h segment_ref) (\<lambda>segment.
        and_then
          (if i > 0 then
             and_then (get_item items (i - 1)) (\<lambda>prev_ref.
             and_then (get_dict h prev_ref) (\<lambda>prev.
               (let prev_end = seg_end prev;
                    current_start = seg_start segment;
                    pause_duration = current_start - prev_end
                in Inr (if pause_duration \<ge> min_pause then current_speaker + 1
                        else current_speaker))))
           else Inr current_speaker) (\<lambda>current_speaker'.
        (case alloc h (Dict segment) of (h1, segment_with_speaker) \<Rightarrow>
           and_then (set_speaker h1 segment_with_speaker current_speaker') (\<lambda>h2.
           and_then (list_append h2 speaker_segments segment_with_speaker) (\<lambda>h3.
             Inr (h3, current_speaker')))))))))"

text \<open>A \<open>for\<close> loop whose body may raise.\<close>

fun for_each :: "('i \<Rightarrow> 's \<Rightarrow> py_error + 's) \<Rightarrow> 'i list \<Rightarrow> 's \<Rightarrow> py_error + 's" where
  "for_each body [] st = Inr st"
| "for_each body (i # rest) st = and_then (body i st) (for_each body rest)"

text \<open>
  \<open>detect_speakers\<close> on the store: the result is the new store and the address of the
  returned list. The empty input returns a new empty list.
\<close>

definition detect_speakers_store :: "store \<Rightarrow> addr \<Rightarrow> real \<Rightarrow> py_error + store \<times> addr" where
  "detect_speakers_store h segments min_pause =
     and_then (get_list h segments) (\<lambda>items.
       if items = [] then Inr (alloc h (PyList []))
       else
         (case alloc h (PyList []) of (h0, speaker_segments) \<Rightarrow>
            and_then
              (for_each (store_speaker_step segments min_pause speaker_segments)
                 [0..<length items] (h0, 1))
              (\<lambda>(h', current_speaker). Inr (h', speaker_segments))))"

text \<open>The segments a list of addresses points to.\<close>

definition dict_at :: "store \<Rightarrow> addr \<Rightarrow> segment" where
  "dict_at h a = (case h ! a of Dict d \<Rightarrow> d | PyList xs \<Rightarrow> timed 0 0)"

text \<open>A store with the three segments of the example and the list that holds them.\<close>

definition demo_store :: store where
  "demo_store = [Dict (timed 0 1), Dict (timed 1.5 2), Dict (timed 5 6), PyList [0, 1, 2]]"

section \<open>Properties of the speaker segmenter\<close>

lemma speaker_loop_Suc:
  "fold (speaker_step segments min_pause) [0..<Suc n] st =
   speaker_step segments min_pause n (fold (speaker_step segments min_pause) [0..<n] st)"
  by simp

lemma speaker_step_fst_mono:
  "c \<le> fst (speaker_step segments min_pause i (c, acc))"
  by (simp add: speaker_step_def Let_def)

lemma speaker_step_first:
  "fst (speaker_step segments min_pause 0 (c, acc)) = c"
  by (simp add: speaker_step_def Let_def)

lemma speaker_step_snd:
  "snd (speaker_step segments min_pause i (c, acc)) =
   acc @ [(segments ! i)\<lparr>seg_speaker := Some (fst (speaker_step segments min_pause i (c, acc)))\<rparr>]"
  by (simp add: speaker_step_def Let_def)

lemma speaker_loop_ids:
  "\<exists>ids. map seg_speaker (snd (fold (speaker_step segments min_pause) [0..<n] (1, []))) = map Some ids
      \<and> length ids = n \<and> sorted ids
      \<and> (\<forall>x\<in>set ids. 1 \<le> x \<and> x \<le> fst (fold (speaker_step segments min_pause) [0..<n] (1, [])))
      \<and> 1 \<le> fst (fold (speaker_step segments min_pause) [0..<n] (1, []))
      \<and> (0 < n \<longrightarrow> hd ids = 1)"
proof (induction n)
  case 0
  show ?case by simp
next
  case (Suc n)
  obtain c acc where st: "fold (speaker_step segments min_pause) [0..<n] (1, []) = (c, acc)"
    by (cases "fold (speaker_step segments min_pause) [0..<n] (1, [])")
  from Suc st obtain ids where ids:
    "map seg_speaker acc = map Some ids" "length ids = n" "sorted ids"
    "\<forall>x\<in>set ids. 1 \<le> x \<and> x \<le> c" "1 \<le> c" "0 < n \<longrightarrow> hd ids = 1"
    by auto
  define c' where "c' = fst (speaker_step segments min_pause n (c, acc))"
  have mono: "c \<le> c'"
    unfolding c'_def by (rule speaker_step_fst_mono)
  have next_st: "fold (speaker_step segments min_pause) [0..<Suc n] (1, []) =
      (c', acc @ [(segments ! n)\<lparr>seg_speaker := Some c'\<rparr>])"
    unfolding speaker_loop_Suc st c'_def
    by (simp add: prod_eq_iff speaker_step_snd)
  have first: "n = 0 \<Longrightarrow> c' = 1"
  proof -
    assume n0: "n = 0"
    with st have "c = 1" by simp
    with n0 show "c' = 1" unfolding c'_def by (simp add: speaker_step_first)
  qed
  have m: "map seg_speaker (acc @ [(segments ! n)\<lparr>seg_speaker := Some c'\<rparr>]) = map Some (ids @ [c'])"
    using ids(1) by simp
  have s: "sorted (ids @ [c'])"
    using ids(3,4) mono by (auto simp: sorted_append)
  have b: "\<forall>x\<in>set (ids @ [c']). 1 \<le> x \<and> x \<le> c'"
    using ids(4,5) mono by auto
  have h: "hd (ids @ [c']) = 1"
  proof (cases "n = 0")
    case True
    with ids(2) first show ?thesis by simp
  next
    case False
    with ids(2,6) show ?thesis by (cases ids) auto
  qed
  show ?case
    unfolding next_st
    using m s b h ids(2,5) mono by (intro exI[of _ "ids @ [c']"]) auto
qed

lemma speaker_loop_length:
  "length (snd (fold (speaker_step segments min_pause) [0..<n] st)) = length (snd st) + n"
proof (induction n)
  case 0
  show ?case by simp
next
  case (Suc n)
  obtain c acc where "fold (speaker_step segments min_pause) [0..<n] st = (c, acc)"
    by (cases "fold (speaker_step segments min_pause) [0..<n] st")
  with Suc show ?case
    unfolding speaker_loop_Suc by (simp add: speaker_step_snd)
qed

text \<open>
  Claim C4. On the three segments with (start, end) pairs (0,1), (1.5,2), (5,6) the
  segmenter assigns the speaker ids 1, 1, 2 with \<open>min_pause = 2.0\<close> and the ids 1, 1, 1
  with \<open>min_pause = 10.0\<close>.
\<close>

theorem detect_speakers_example:
  "map seg_speaker (detect_speakers [timed 0 1, timed 1.5 2, timed 5 6] 2.0)
     = [Some 1, Some 1, Some 2]
   \<and> map seg_speaker (detect_speakers [timed 0 1, timed 1.5 2, timed 5 6] 10.0)
     = [Some 1, Some 1, Some 1]"
  by (simp add: detect_speakers_def speaker_step_def timed_def upt_rec)

text \<open>
  Claim C5. For every non-empty list of segments and every \<open>min_pause\<close>, every output
  segment carries a speaker id, and the sequence of ids is non-decreasing, starts at 1
  and has every member at least 1.
\<close>

theorem detect_speakers_ids_monotone:
  assumes "segments \<noteq> []"
  shows "\<exists>ids. map seg_speaker (detect_speakers segments min_pause) = map Some ids
           \<and> length ids = length segments
           \<and> sorted ids \<and> hd ids = 1 \<and> (\<forall>x\<in>set ids. 1 \<le> x)"
proof -
  from speaker_loop_ids [of segments min_pause "length segments"]
  obtain ids where ids:
    "map seg_speaker (snd (fold (speaker_step segments min_pause) [0..<length segments] (1, [])))
       = map Some ids"
    "length ids = length segments" "sorted ids"
    "\<forall>x\<in>set ids. 1 \<le> x \<and> x \<le> fst (fold (speaker_step segments min_pause) [0..<length segments] (1, []))"
    "0 < length segments \<longrightarrow> hd ids = 1"
    by blast
  from assms ids(5) have "hd ids = 1" by simp
  with ids(1-4) assms show ?thesis
    by (auto simp: detect_speakers_def)
qed

theorem detect_speakers_ids_monotone_witness:
  "[timed 0 1, timed 1.5 2, timed 5 6] \<noteq> []
   \<and> (\<exists>ids. map seg_speaker (detect_speakers [timed 0 1, timed 1.5 2, timed 5 6] 2.0) = map Some ids
           \<and> length ids = length [timed 0 1, timed 1.5 2, timed 5 6]
           \<and> sorted ids \<and> hd ids = 1 \<and> (\<forall>x\<in>set ids. 1 \<le> x))"
  using detect_speakers_ids_monotone [of "[timed 0 1, timed 1.5 2, timed 5 6]" "2.0"]
  by simp

section \<open>Properties of the streaming worker\<close>

lemma frombuffer_even:
  "even (length bs) \<Longrightarrow> \<exists>samples. frombuffer_int16 bs = Inr samples \<and> length samples = length bs div 2"
  by (induction bs rule: frombuffer_int16.induct) auto


lemma worker_iteration_accumulate:
  "length (audio_buffer w) + length chunk < buffer_size \<Longrightarrow>
   worker_iteration env (Some chunk) w = w\<lparr>audio_buffer := audio_buffer w @ chunk\<rparr>"
  by (simp add: worker_iteration_def)



lemma transcribe_audio_chunk_window:
  assumes "frombuffer_int16 audio_data = Inr samples" "sample_rate \<le> 2 * length samples"
  shows "asr_calls (snd (transcribe_audio_chunk env audio_data w)) = asr_calls w @ [samples]"
    and "audio_buffer (snd (transcribe_audio_chunk env audio_data w)) = audio_buffer w"
    and "file_content (snd (transcribe_audio_chunk env audio_data w)) = file_content w"
  using assms by (auto simp: transcribe_audio_chunk_def Let_def split: sum.splits)

lemma worker_iteration_full:
  assumes full: "buffer_size \<le> length (audio_buffer w) + length chunk"
      and ev: "even (length (audio_buffer w) + length chunk)"
  shows "\<exists>samples. frombuffer_int16 (audio_buffer w @ chunk) = Inr samples
          \<and> length samples = (length (audio_buffer w) + length chunk) div 2
          \<and> asr_calls (worker_iteration env (Some chunk) w) = asr_calls w @ [samples]
          \<and> (audio_buffer (worker_iteration env (Some chunk) w) = last_bytes overlap (audio_buffer w @ chunk)
             \<or> (\<exists>content line e. file_append env content line = Inl e)
                \<and> audio_buffer (worker_iteration env (Some chunk) w) = audio_buffer w @ chunk)"
proof -
  from frombuffer_even [of "audio_buffer w @ chunk"] ev
  obtain samples where s: "frombuffer_int16 (audio_buffer w @ chunk) = Inr samples"
    "length samples = (length (audio_buffer w) + length chunk) div 2"
    by auto
  from full ev s(2) have long: "sample_rate \<le> 2 * length samples"
    by (auto simp: buffer_size_def sample_rate_def)
  let ?w1 = "w\<lparr>audio_buffer := audio_buffer w @ chunk\<rparr>"
  obtain t w2 where tc: "transcribe_audio_chunk env (audio_buffer w @ chunk) ?w1 = (t, w2)"
    by (cases "transcribe_audio_chunk env (audio_buffer w @ chunk) ?w1")
  from transcribe_audio_chunk_window [OF s(1) long, of env ?w1] tc
  have w2: "asr_calls w2 = asr_calls w @ [samples]" "audio_buffer w2 = audio_buffer w @ chunk"
    by simp_all
  have it: "worker_iteration env (Some chunk) w =
     (case t of None \<Rightarrow> w2\<lparr>audio_buffer := last_bytes overlap (audio_buffer w2)\<rparr>
      | Some text \<Rightarrow>
         (case file_append env (file_content w2) (output_line (clock env (length (asr_calls w2))) text) of
            Inl e \<Rightarrow> w2\<lparr>error_log := error_log w2 @ [e]\<rparr>
          | Inr content \<Rightarrow> w2\<lparr>file_content := content, audio_buffer := last_bytes overlap (audio_buffer w2)\<rparr>))"
    using full tc by (simp add: worker_iteration_def Let_def split: option.splits)
  show ?thesis
    using s w2 unfolding it
    by (auto split: option.splits sum.splits)
qed

lemma concat_replicate_length: "length (concat (replicate n xs)) = n * length xs"
  by (induction n) auto





lemma frombuffer_length:
  "frombuffer_int16 bs = Inr samples \<Longrightarrow> length bs = 2 * length samples"
  by (induction bs arbitrary: samples rule: frombuffer_int16.induct) (auto split: sum.splits)

lemma transcribe_audio_chunk_calls:
  "asr_calls (snd (transcribe_audio_chunk env audio_data w)) = asr_calls w
   \<or> (\<exists>samples. asr_calls (snd (transcribe_audio_chunk env audio_data w)) = asr_calls w @ [samples]
        \<and> length audio_data = 2 * length samples)"
  by (auto simp: transcribe_audio_chunk_def Let_def split: sum.splits dest: frombuffer_length)

lemma worker_iteration_calls:
  "\<exists>calls. asr_calls (worker_iteration env got w) = asr_calls w @ calls
      \<and> (\<forall>a\<in>set calls. target_window_samples \<le> length a)"
proof -
  define w1 where "w1 = (case got of Some audio_data \<Rightarrow> w\<lparr>audio_buffer := audio_buffer w @ audio_data\<rparr>
                          | None \<Rightarrow> w)"
  have w1_calls: "asr_calls w1 = asr_calls w"
    by (simp add: w1_def split: option.splits)
  show ?thesis
  proof (cases "buffer_size \<le> length (audio_buffer w1)")
    case False
    then have "worker_iteration env got w = w1"
      by (simp add: worker_iteration_def w1_def)
    with w1_calls show ?thesis by simp
  next
    case True
    obtain t w2 where tc: "transcribe_audio_chunk env (audio_buffer w1) w1 = (t, w2)"
      by (cases "transcribe_audio_chunk env (audio_buffer w1) w1")
    have same: "asr_calls (worker_iteration env got w) = asr_calls w2"
      using True tc unfolding worker_iteration_def w1_def [symmetric]
      by (simp add: Let_def split: option.splits sum.splits)
    from transcribe_audio_chunk_calls [of env "audio_buffer w1" w1] tc
    have "asr_calls w2 = asr_calls w1
       \<or> (\<exists>samples. asr_calls w2 = asr_calls w1 @ [samples] \<and> length (audio_buffer w1) = 2 * length samples)"
      by simp
    then show ?thesis
    proof
      assume "asr_calls w2 = asr_calls w1"
      with same w1_calls show ?thesis by simp
    next
      assume "\<exists>samples. asr_calls w2 = asr_calls w1 @ [samples] \<and> length (audio_buffer w1) = 2 * length samples"
      then obtain samples where s: "asr_calls w2 = asr_calls w1 @ [samples]"
        "length (audio_buffer w1) = 2 * length samples" by blast
      from s(2) True have "target_window_samples \<le> length samples"
        by (simp add: buffer_size_def target_window_samples_def sample_rate_def)
      with s(1) same w1_calls show ?thesis by simp
    qed
  qed
qed

lemma worker_stopped_calls:
  "\<exists>calls. asr_calls (worker_stopped env queue w) = asr_calls w @ calls
      \<and> (\<forall>a\<in>set calls. target_window_samples \<le> length a)"
proof (induction queue arbitrary: w)
  case Nil
  show ?case by simp
next
  case (Cons audio_data queue)
  from worker_iteration_calls [of env "Some audio_data" w]
  obtain c1 where c1: "asr_calls (worker_iteration env (Some audio_data) w) = asr_calls w @ c1"
    "\<forall>a\<in>set c1. target_window_samples \<le> length a" by blast
  from Cons.IH [of "worker_iteration env (Some audio_data) w"]
  obtain c2 where c2: "asr_calls (worker_stopped env queue (worker_iteration env (Some audio_data) w))
      = asr_calls (worker_iteration env (Some audio_data) w) @ c2"
    "\<forall>a\<in>set c2. target_window_samples \<le> length a" by blast
  from c1 c2 show ?case
    by (intro exI[of _ "c1 @ c2"]) auto
qed

lemma worker_stopped_short:
  "length (audio_buffer w) + length (concat queue) < buffer_size \<Longrightarrow>
   worker_stopped env queue w = w\<lparr>audio_buffer := audio_buffer w @ concat queue\<rparr>"
proof (induction queue arbitrary: w)
  case Nil
  show ?case by simp
next
  case (Cons audio_data queue)
  have step: "worker_iteration env (Some audio_data) w = w\<lparr>audio_buffer := audio_buffer w @ audio_data\<rparr>"
    using Cons.prems by (intro worker_iteration_accumulate) simp
  have "worker_stopped env queue (w\<lparr>audio_buffer := audio_buffer w @ audio_data\<rparr>)
      = (w\<lparr>audio_buffer := audio_buffer w @ audio_data\<rparr>)
          \<lparr>audio_buffer := audio_buffer (w\<lparr>audio_buffer := audio_buffer w @ audio_data\<rparr>) @ concat queue\<rparr>"
    using Cons.prems by (intro Cons.IH) simp
  with step show ?case by simp
qed

text \<open>
  Claim C2 as stated fails. After the stop signal, with one chunk of 32000 bytes (one
  second of audio, more than the half second of the minimum) in the queue, the worker
  takes the chunk into its buffer and returns: the model is never called and nothing is
  written.
\<close>

theorem no_final_flush_counterexample:
  "asr_calls (worker_stopped demo_env [replicate 32000 0] (init_worker [])) = []
   \<and> file_content (worker_stopped demo_env [replicate 32000 0] (init_worker [])) = []
   \<and> length (audio_buffer (worker_stopped demo_env [replicate 32000 0] (init_worker []))) = 32000
   \<and> sample_rate div 2 \<le> 32000 div 2 \<and> 32000 < buffer_size"
  by (simp add: worker_iteration_def init_worker_def buffer_size_def sample_rate_def)

lemma worker_stopped_fold:
  "worker_stopped env queue w = fold (worker_iteration env) (map Some queue) w"
  by (induction queue arbitrary: w) simp_all

lemma transcribe_audio_chunk_keeps_buffer:
  "audio_buffer (snd (transcribe_audio_chunk env audio_data w)) = audio_buffer w"
  by (auto simp: transcribe_audio_chunk_def Let_def split: sum.splits)

lemma worker_iteration_buffer:
  "audio_buffer (worker_iteration env (Some chunk) w) = audio_buffer w @ chunk
   \<or> (buffer_size \<le> length (audio_buffer w @ chunk)
      \<and> audio_buffer (worker_iteration env (Some chunk) w) = last_bytes overlap (audio_buffer w @ chunk))"
proof (cases "buffer_size \<le> length (audio_buffer w @ chunk)")
  case False
  then show ?thesis by (simp add: worker_iteration_def)
next
  case True
  let ?w1 = "w\<lparr>audio_buffer := audio_buffer w @ chunk\<rparr>"
  obtain t w2 where tc: "transcribe_audio_chunk env (audio_buffer w @ chunk) ?w1 = (t, w2)"
    by (cases "transcribe_audio_chunk env (audio_buffer w @ chunk) ?w1")
  from transcribe_audio_chunk_keeps_buffer [of env "audio_buffer w @ chunk" ?w1] tc
  have w2: "audio_buffer w2 = audio_buffer w @ chunk" by simp
  from True tc w2 show ?thesis
    by (auto simp: worker_iteration_def Let_def split: option.splits sum.splits)
qed

lemma worker_iteration_suffix:
  "suffix (audio_buffer (worker_iteration env (Some chunk) w)) (audio_buffer w @ chunk)
   \<and> min overlap (length (audio_buffer w @ chunk))
       \<le> length (audio_buffer (worker_iteration env (Some chunk) w))"
proof -
  have s: "suffix (last_bytes overlap xs) xs" for xs :: "byte list"
    unfolding last_bytes_def by (rule suffix_drop)
  have l: "length (last_bytes overlap xs) = min overlap (length xs)" for xs :: "byte list"
    by (simp add: last_bytes_def)
  from worker_iteration_buffer [of env chunk w] s [of "audio_buffer w @ chunk"]
    l [of "audio_buffer w @ chunk"]
  show ?thesis by auto
qed

lemma worker_stopped_suffix:
  "suffix (audio_buffer (worker_stopped env queue w)) (audio_buffer w @ concat queue)
   \<and> min overlap (length (audio_buffer w @ concat queue))
       \<le> length (audio_buffer (worker_stopped env queue w))"
proof (induction queue arbitrary: w)
  case Nil
  show ?case by simp
next
  case (Cons chunk queue)
  let ?w' = "worker_iteration env (Some chunk) w"
  from worker_iteration_suffix [of env chunk w]
  have a: "suffix (audio_buffer ?w') (audio_buffer w @ chunk)"
    and b: "min overlap (length (audio_buffer w @ chunk)) \<le> length (audio_buffer ?w')"
    by simp_all
  from Cons.IH [of ?w']
  have c: "suffix (audio_buffer (worker_stopped env queue ?w')) (audio_buffer ?w' @ concat queue)"
    and d: "min overlap (length (audio_buffer ?w' @ concat queue))
              \<le> length (audio_buffer (worker_stopped env queue ?w'))"
    by simp_all
  from a have "suffix (audio_buffer ?w' @ concat queue) ((audio_buffer w @ chunk) @ concat queue)"
    by (simp only: suffix_append same_suffix_suffix) (metis suffix_appendI suffix_order.refl same_suffix_suffix)
  with c have e: "suffix (audio_buffer (worker_stopped env queue ?w')) ((audio_buffer w @ chunk) @ concat queue)"
    by (rule suffix_order.trans)
  have f: "min overlap (length ((audio_buffer w @ chunk) @ concat queue))
        \<le> min overlap (length (audio_buffer ?w' @ concat queue))"
    using b by auto
  from e d f show ?case by simp
qed

lemma worker_iteration_even:
  assumes "even (length (audio_buffer w))" "even (length chunk)"
  shows "even (length (audio_buffer (worker_iteration env (Some chunk) w)))"
proof -
  have ov: "even overlap" by (simp add: overlap_def buffer_size_def sample_rate_def)
  have "buffer_size \<le> length xs \<Longrightarrow> length (last_bytes overlap xs) = overlap" for xs :: "byte list"
    by (simp add: last_bytes_def overlap_def buffer_size_def sample_rate_def)
  with worker_iteration_buffer [of env chunk w] assms ov show ?thesis
    by auto
qed

lemma worker_stopped_window_called:
  assumes "queue \<noteq> []"
    and "buffer_size \<le> length (audio_buffer w) + length (concat queue)"
    and "even (length (audio_buffer w))"
    and "\<forall>chunk\<in>set queue. even (length chunk)"
  shows "asr_calls (worker_stopped env queue w) \<noteq> asr_calls w"
  using assms
proof (induction queue arbitrary: w)
  case Nil
  then show ?case by simp
next
  case (Cons chunk queue)
  let ?w' = "worker_iteration env (Some chunk) w"
  from Cons.prems(3,4) have ev: "even (length (audio_buffer w) + length chunk)" by simp
  show ?case
  proof (cases "buffer_size \<le> length (audio_buffer w) + length chunk")
    case True
    from worker_iteration_full [OF True ev, of env]
    obtain samples where s: "asr_calls ?w' = asr_calls w @ [samples]" by blast
    from worker_stopped_calls [of env queue ?w']
    obtain calls where c: "asr_calls (worker_stopped env queue ?w') = asr_calls ?w' @ calls" by blast
    from s c show ?thesis by simp
  next
    case False
    then have acc: "?w' = w\<lparr>audio_buffer := audio_buffer w @ chunk\<rparr>"
      by (intro worker_iteration_accumulate) simp
    from False Cons.prems(2) have ne: "queue \<noteq> []" by auto
    have "asr_calls (worker_stopped env queue ?w') \<noteq> asr_calls ?w'"
      using Cons.prems ne ev by (intro Cons.IH) (simp_all add: acc)
    then show ?thesis by (simp add: acc)
  qed
qed


text \<open>
  Claim C2, amended. After the stop signal the worker takes every queued chunk, in
  order, each in one pass of the loop body. The buffer it ends with is a suffix of the
  audio it started with followed by all queued chunks, and holds at least the last
  \<open>overlap\<close> bytes of that audio (all of it when it is shorter). Every model call made on
  the way is on a buffer that reached the target, so at least \<open>target_window_samples\<close>
  samples. When the buffered audio together with the queued chunks stays below
  \<open>buffer_size\<close>, all chunks are appended to the buffer and the worker returns without any
  model call and without writing, whatever the length of the remaining audio. When they
  reach \<open>buffer_size\<close> (whole samples throughout), at least one model call is made.
\<close>

theorem worker_stopped_no_partial_call:
  "worker_stopped env queue w = fold (worker_iteration env) (map Some queue) w
   \<and> suffix (audio_buffer (worker_stopped env queue w)) (audio_buffer w @ concat queue)
   \<and> min overlap (length (audio_buffer w @ concat queue))
        \<le> length (audio_buffer (worker_stopped env queue w))
   \<and> (\<exists>calls. asr_calls (worker_stopped env queue w) = asr_calls w @ calls
      \<and> (\<forall>a\<in>set calls. target_window_samples \<le> length a))
   \<and> (length (audio_buffer w) + length (concat queue) < buffer_size \<longrightarrow>
        worker_stopped env queue w = w\<lparr>audio_buffer := audio_buffer w @ concat queue\<rparr>)
   \<and> (queue \<noteq> [] \<and> buffer_size \<le> length (audio_buffer w) + length (concat queue)
        \<and> even (length (audio_buffer w)) \<and> (\<forall>chunk\<in>set queue. even (length chunk)) \<longrightarrow>
        asr_calls (worker_stopped env queue w) \<noteq> asr_calls w)"
  using worker_stopped_fold [of env queue w] worker_stopped_suffix [of env queue w]
    worker_stopped_calls [of env queue w] worker_stopped_short [of w queue env]
    worker_stopped_window_called [of queue w env]
  by blast

theorem worker_stopped_no_partial_call_witness:
  "length (audio_buffer (init_worker [])) + length (concat [replicate 32000 (0::byte)]) < buffer_size
   \<and> worker_stopped demo_env [replicate 32000 0] (init_worker [])
        = (init_worker [])\<lparr>audio_buffer := audio_buffer (init_worker []) @ concat [replicate 32000 0]\<rparr>
   \<and> replicate 47 (replicate 2048 (0::byte)) \<noteq> []
   \<and> buffer_size \<le> length (audio_buffer (init_worker []))
                      + length (concat (replicate 47 (replicate 2048 (0::byte))))
   \<and> even (length (audio_buffer (init_worker [])))
   \<and> even (length (replicate 2048 (0::byte)))
   \<and> asr_calls (worker_stopped demo_env (replicate 47 (replicate 2048 0)) (init_worker []))
        \<noteq> asr_calls (init_worker [])
   \<and> suffix (audio_buffer (worker_stopped demo_env (replicate 47 (replicate 2048 0)) (init_worker [])))
        (audio_buffer (init_worker []) @ concat (replicate 47 (replicate 2048 0)))"
proof -
  have short: "length (audio_buffer (init_worker [])) + length (concat [replicate 32000 (0::byte)]) < buffer_size"
    by (simp add: init_worker_def buffer_size_def sample_rate_def)
  have ne: "replicate 47 (replicate 2048 (0::byte)) \<noteq> []"
    by simp
  have full: "buffer_size \<le> length (audio_buffer (init_worker []))
                      + length (concat (replicate 47 (replicate 2048 (0::byte))))"
    by (simp add: init_worker_def concat_replicate_length buffer_size_def sample_rate_def)
  have ev: "even (length (audio_buffer (init_worker [])))" "even (length (replicate 2048 (0::byte)))"
    by (simp_all add: init_worker_def)
  have evs: "\<forall>chunk\<in>set (replicate 47 (replicate 2048 (0::byte))). even (length chunk)"
    by simp
  from worker_stopped_no_partial_call [of demo_env "[replicate 32000 0]" "init_worker []"] short
  have a: "worker_stopped demo_env [replicate 32000 0] (init_worker [])
        = (init_worker [])\<lparr>audio_buffer := audio_buffer (init_worker []) @ concat [replicate 32000 0]\<rparr>"
    by blast
  from worker_stopped_no_partial_call [of demo_env "replicate 47 (replicate 2048 0)" "init_worker []"]
  have b: "suffix (audio_buffer (worker_stopped demo_env (replicate 47 (replicate 2048 0)) (init_worker [])))
        (audio_buffer (init_worker []) @ concat (replicate 47 (replicate 2048 0)))"
    and c: "replicate 47 (replicate 2048 (0::byte)) \<noteq> []
        \<and> buffer_size \<le> length (audio_buffer (init_worker []))
                      + length (concat (replicate 47 (replicate 2048 (0::byte))))
        \<and> even (length (audio_buffer (init_worker [])))
        \<and> (\<forall>chunk\<in>set (replicate 47 (replicate 2048 (0::byte))). even (length chunk)) \<longrightarrow>
        asr_calls (worker_stopped demo_env (replicate 47 (replicate 2048 0)) (init_worker []))
          \<noteq> asr_calls (init_worker [])"
    by blast+
  from c ne full ev(1) evs
  have d: "asr_calls (worker_stopped demo_env (replicate 47 (replicate 2048 0)) (init_worker []))
          \<noteq> asr_calls (init_worker [])"
    by blast
  from short a ne full ev d b show ?thesis
    by (intro conjI)
qed


section \<open>Properties of the report\<close>


lemma written_by_simps:
  "written_by [] = []"
  "written_by (Inr s # steps) = s @ written_by steps"
  "written_by (Inl e # steps) = written_by steps"
  "written_by (xs @ ys) = written_by xs @ written_by ys"
  by (simp_all add: written_by_def)

lemma f_write_all_outcome:
  "(\<exists>e k. k < length steps \<and> f_write_all limit steps written = (written @ written_by (take k steps), Some e))
   \<or> ((\<forall>s\<in>set steps. isl s = False) \<and> f_write_all limit steps written = (written @ written_by steps, None))"
proof (induction limit steps written rule: f_write_all.induct)
  case (1 limit written)
  show ?case by (simp add: written_by_simps)
next
  case (2 limit e steps written)
  show ?case by (auto simp: written_by_simps intro: exI[of _ 0])
next
  case (3 limit s steps written)
  have lift_fail: "\<exists>e k. k < length (Inr s # steps) \<and> f_write_all limit (Inr s # steps) written
          = (written @ written_by (take k (Inr s # steps)), Some e)"
    if "f_write_all limit (Inr s # steps) written = f_write_all limit' steps (written @ s)"
      "k < length steps"
      "f_write_all limit' steps (written @ s) = ((written @ s) @ written_by (take k steps), Some e)"
    for limit' k e
    using that by (intro exI[of _ e] exI[of _ "Suc k"]) (simp add: written_by_simps)
  have lift_ok: "(\<forall>x\<in>set (Inr s # steps). isl x = False) \<and> f_write_all limit (Inr s # steps) written
          = (written @ written_by (Inr s # steps), None)"
    if "f_write_all limit (Inr s # steps) written = f_write_all limit' steps (written @ s)"
      "\<forall>x\<in>set steps. isl x = False"
      "f_write_all limit' steps (written @ s) = ((written @ s) @ written_by steps, None)"
    for limit'
    using that by (simp add: written_by_simps)
  show ?case
  proof (cases limit)
    case None
    then have eq: "f_write_all limit (Inr s # steps) written = f_write_all None steps (written @ s)"
      by simp
    from 3(1) [OF None] lift_fail [OF eq] lift_ok [OF eq] show ?thesis
      by blast
  next
    case (Some n)
    show ?thesis
    proof (cases n)
      case 0
      with Some have "f_write_all limit (Inr s # steps) written
          = (written @ written_by (take 0 (Inr s # steps)), Some OSError)"
        by (simp add: written_by_simps)
      then show ?thesis
        by (intro disjI1 exI[of _ OSError] exI[of _ 0]) simp
    next
      case (Suc k')
      with Some have eq: "f_write_all limit (Inr s # steps) written = f_write_all (Some k') steps (written @ s)"
        by simp
      from 3(2) [OF Some Suc] lift_fail [OF eq] lift_ok [OF eq] show ?thesis
        by blast
    qed
  qed
qed

lemma f_write_all_unlimited:
  "\<forall>s\<in>set steps. isl s = False \<Longrightarrow> f_write_all None steps written = (written @ written_by steps, None)"
proof (induction steps arbitrary: written)
  case Nil
  show ?case by (simp add: written_by_simps)
next
  case (Cons s steps)
  then show ?case by (cases s) (simp_all add: written_by_simps)
qed


lemma digits_small: "n < 10 \<Longrightarrow> digits n = [48 + n]"
  by (simp add: digits.simps)

lemma format_timestamp_zero: "format_timestamp 0 = Inr (ascii ''00:00:00'')"
  by (simp add: format_timestamp_def timedelta_microseconds_def round_half_even_def
      int_total_seconds_def format_02d_def str_int_def digits_small ascii_def Let_def)

lemma format_timestamp_one: "format_timestamp 1 = Inr (ascii ''00:00:01'')"
  by (simp add: format_timestamp_def timedelta_microseconds_def round_half_even_def
      int_total_seconds_def format_02d_def str_int_def digits_small ascii_def Let_def)


lemma stats_steps_empty:
  "stats_steps include_speakers [] full_text =
     [Inr ([10] @ replicate 60 61 @ [10]),
      Inr (statistics_label @ [10]),
      Inr (total_duration_label @ ascii ''00:00:00'' @ [10]),
      Inr (segment_count_label @ ascii ''0'' @ [10])]
     @ (if include_speakers then [Inr (speaker_count_label @ ascii ''1'' @ [10])] else [])
     @ [Inr (char_count_label @ str_int (int (length full_text)) @ [10])]"
  by (simp add: stats_steps_def format_timestamp_zero str_int_def digits_small ascii_def)



lemma strip_ascii_hi: "strip (ascii ''hi'') = ascii ''hi''"
  by (simp add: strip_def ascii_def py_isspace_def)

text \<open>
  Claim C7, evaluated on the segment from 0 s to 1 s with the text "hi" and speaker 1
  (the first flag is \<open>include_speakers\<close>, the second \<open>include_timestamps\<close>). With both flags
  the line is \<open>[start - end] speaker: text\<close>; with timestamps only, the speaker is left
  out; with neither, the line is the text. With speakers enabled and timestamps disabled
  the line is the text alone: the enabled speaker field is absent.
\<close>

theorem detail_line_flag_combinations:
  "detail_line True True demo_segment
      = Inr (ascii ''[00:00:00 - 00:00:01] '' @ speaker_label @ ascii ''1: hi'' @ [10])
   \<and> detail_line False True demo_segment = Inr (ascii ''[00:00:00 - 00:00:01] hi'' @ [10])
   \<and> detail_line False False demo_segment = Inr (ascii ''hi'' @ [10])
   \<and> detail_line True False demo_segment = Inr (ascii ''hi'' @ [10])"
  by (simp add: detail_line_def demo_segment_def format_timestamp_zero format_timestamp_one
      strip_ascii_hi str_int_def digits_small)
     (simp add: ascii_def)

lemma dropWhile_id: "xs = [] \<or> \<not> P (hd xs) \<Longrightarrow> dropWhile P xs = xs"
  by (cases xs) auto

lemma strip_clean:
  assumes "s = [] \<or> \<not> py_isspace (hd s) \<and> \<not> py_isspace (last s)"
  shows "strip s = s"
proof (cases "s = []")
  case True
  then show ?thesis by (simp add: strip_def)
next
  case False
  with assms have h: "\<not> py_isspace (hd s)" "\<not> py_isspace (last s)" by auto
  from h(1) have a: "dropWhile py_isspace s = s"
    by (intro dropWhile_id) simp
  from False h(2) have b: "dropWhile py_isspace (rev s) = rev s"
    by (intro dropWhile_id) (simp add: hd_rev)
  show ?thesis by (simp add: strip_def a b)
qed

lemma written_by_full_text:
  "written_by (full_text_steps result)
     = full_text_label @ [10] @ replicate 40 45 @ [10] @ strip (res_text result) @ [10, 10]"
  by (simp add: full_text_steps_def written_by_simps)

lemma full_text_in_report:
  "sublist (written_by (full_text_steps result))
     (written_by (report_steps app env result mp4_path include_speakers include_timestamps))"
  unfolding report_steps_def Let_def written_by_simps
  by (rule sublist_appendI)

lemma save_transcript_cases:
  assumes "open_ok env"
  shows "(\<exists>e k. k < length (report_steps app env result mp4_path include_speakers include_timestamps)
            \<and> save_transcript app env fs result mp4_path include_speakers include_timestamps
                = (fs(output_path app env mp4_path \<mapsto>
                        written_by (take k (report_steps app env result mp4_path include_speakers include_timestamps))),
                   Inl e))
       \<or> ((\<forall>s\<in>set (report_steps app env result mp4_path include_speakers include_timestamps). isl s = False)
           \<and> save_transcript app env fs result mp4_path include_speakers include_timestamps
                = (fs(output_path app env mp4_path \<mapsto>
                        written_by (report_steps app env result mp4_path include_speakers include_timestamps)),
                   Inr (output_path app env mp4_path)))"
  using assms
    f_write_all_outcome [of "report_steps app env result mp4_path include_speakers include_timestamps"
                            "write_limit env" "[]"]
  by (auto simp: save_transcript_def Let_def)

lemma save_transcript_closed: "\<not> open_ok env \<Longrightarrow>
    save_transcript app env fs result mp4_path include_speakers include_timestamps = (fs, Inl OSError)"
  by (simp add: save_transcript_def Let_def)

lemma save_transcript_returned:
  assumes "snd (save_transcript app env fs result mp4_path include_speakers include_timestamps) = Inr path"
  shows "path = output_path app env mp4_path
    \<and> fst (save_transcript app env fs result mp4_path include_speakers include_timestamps) path
       = Some (written_by (report_steps app env result mp4_path include_speakers include_timestamps))"
proof (cases "open_ok env")
  case False
  with assms show ?thesis by (simp add: save_transcript_closed)
next
  case True
  from save_transcript_cases [OF True, of app result mp4_path include_speakers include_timestamps fs] assms
  show ?thesis by auto
qed

text \<open>
  Claim C9 as stated fails. For the full text " ok" (Whisper starts its text with a
  space) the full text block holds "ok": the string with its leading space does not occur
  in the block.
\<close>

theorem full_text_not_verbatim_counterexample:
  "written_by (full_text_steps (demo_result (ascii '' ok'') []))
      = full_text_label @ [10] @ replicate 40 45 @ [10] @ ascii ''ok'' @ [10, 10]
   \<and> \<not> sublist (ascii '' ok'') (written_by (full_text_steps (demo_result (ascii '' ok'') [])))"
proof -
  have s: "strip (ascii '' ok'') = ascii ''ok''"
    by (simp add: strip_def ascii_def py_isspace_def)
  have w: "written_by (full_text_steps (demo_result (ascii '' ok'') []))
      = full_text_label @ [10] @ replicate 40 45 @ [10] @ ascii ''ok'' @ [10, 10]"
    by (simp add: written_by_full_text demo_result_def s)
  have "32 \<in> set (ascii '' ok'')"
    by (simp add: ascii_def)
  moreover have "32 \<notin> set (written_by (full_text_steps (demo_result (ascii '' ok'') [])))"
    unfolding w by (simp add: full_text_label_def ascii_def)
  ultimately have "\<not> sublist (ascii '' ok'') (written_by (full_text_steps (demo_result (ascii '' ok'') [])))"
    using set_mono_sublist by blast
  with w show ?thesis by simp
qed

text \<open>
  Claim C9, amended. For every result and every combination of the two flags, the full
  text block is the heading, the rule of 40 dashes and the full text after \<open>strip()\<close>,
  followed by an empty line; the block is part of the report, and of the file at the
  returned path whenever \<open>save_transcript\<close> returns. The stripped text is the text itself
  when it is empty or neither starts nor ends with white space.
\<close>

theorem full_text_block_stripped:
  "written_by (full_text_steps result)
      = full_text_label @ [10] @ replicate 40 45 @ [10] @ strip (res_text result) @ [10, 10]
   \<and> sublist (written_by (full_text_steps result))
        (written_by (report_steps app env result mp4_path include_speakers include_timestamps))
   \<and> (snd (save_transcript app env fs result mp4_path include_speakers include_timestamps) = Inr path
        \<longrightarrow> (\<exists>content.
               fst (save_transcript app env fs result mp4_path include_speakers include_timestamps) path
                 = Some content
               \<and> sublist (written_by (full_text_steps result)) content))
   \<and> ((res_text result = []
         \<or> \<not> py_isspace (hd (res_text result)) \<and> \<not> py_isspace (last (res_text result)))
        \<longrightarrow> strip (res_text result) = res_text result)"
  using written_by_full_text [of result]
    full_text_in_report [of result app env mp4_path include_speakers include_timestamps]
    save_transcript_returned [of app env fs result mp4_path include_speakers include_timestamps path]
    strip_clean [of "res_text result"]
  by auto

lemma report_steps_no_segments:
  assumes "res_segments result = []"
  shows "report_steps app env result mp4_path include_speakers include_timestamps
      = header_steps app env result mp4_path @ full_text_steps result
        @ [Inr (detail_label @ [10]), Inr (replicate 40 45 @ [10])]
        @ stats_steps include_speakers [] (strip (res_text result))"
proof -
  have segs: "(if include_speakers then detect_speakers (res_segments result) default_min_pause
               else res_segments result) = []"
    using assms by (simp add: detect_speakers_def)
  show ?thesis
    unfolding report_steps_def Let_def segs by (simp add: detail_steps_def)
qed

lemma report_steps_no_segments_ok:
  assumes "res_segments result = []"
  shows "\<forall>s\<in>set (report_steps app env result mp4_path include_speakers include_timestamps).
           isl s = False"
  unfolding report_steps_no_segments [OF assms]
  by (auto simp: header_steps_def full_text_steps_def stats_steps_empty)

lemma save_transcript_all_ok:
  assumes "open_ok env" and "write_limit env = None"
    and "\<forall>s\<in>set (report_steps app env result mp4_path include_speakers include_timestamps).
           isl s = False"
  shows "save_transcript app env fs result mp4_path include_speakers include_timestamps
     = (fs(output_path app env mp4_path \<mapsto>
            written_by (report_steps app env result mp4_path include_speakers include_timestamps)),
        Inr (output_path app env mp4_path))"
proof -
  have "f_write_all (write_limit env)
       (report_steps app env result mp4_path include_speakers include_timestamps) []
     = ([] @ written_by (report_steps app env result mp4_path include_speakers include_timestamps), None)"
    unfolding assms(2) using assms(3) by (rule f_write_all_unlimited)
  with assms(1) show ?thesis
    by (simp add: save_transcript_def Let_def)
qed

lemma demo_batch_env_open: "open_ok (demo_batch_env limit)"
  by (simp add: demo_batch_env_def)

lemma demo_batch_env_limit: "write_limit (demo_batch_env limit) = limit"
  by (simp add: demo_batch_env_def)

lemma demo_result_no_segments: "res_segments (demo_result t []) = []"
  by (simp add: demo_result_def)







theorem full_text_block_stripped_witness:
  "snd (save_transcript demo_app (demo_batch_env None) Map.empty (demo_result (ascii ''hello'') [])
          (ascii ''talk.mp4'') True True)
     = Inr (output_path demo_app (demo_batch_env None) (ascii ''talk.mp4''))
   \<and> (\<exists>content.
         fst (save_transcript demo_app (demo_batch_env None) Map.empty (demo_result (ascii ''hello'') [])
                (ascii ''talk.mp4'') True True)
           (output_path demo_app (demo_batch_env None) (ascii ''talk.mp4'')) = Some content
         \<and> sublist (written_by (full_text_steps (demo_result (ascii ''hello'') []))) content)
   \<and> \<not> py_isspace (hd (res_text (demo_result (ascii ''hello'') [])))
   \<and> \<not> py_isspace (last (res_text (demo_result (ascii ''hello'') [])))
   \<and> strip (res_text (demo_result (ascii ''hello'') [])) = res_text (demo_result (ascii ''hello'') [])"
proof -
  have ret: "snd (save_transcript demo_app (demo_batch_env None) Map.empty (demo_result (ascii ''hello'') [])
          (ascii ''talk.mp4'') True True)
     = Inr (output_path demo_app (demo_batch_env None) (ascii ''talk.mp4''))"
    using save_transcript_all_ok [OF demo_batch_env_open demo_batch_env_limit
        report_steps_no_segments_ok [OF demo_result_no_segments]]
    by simp
  have clean: "\<not> py_isspace (hd (res_text (demo_result (ascii ''hello'') [])))"
    "\<not> py_isspace (last (res_text (demo_result (ascii ''hello'') [])))"
    by (simp_all add: demo_result_def ascii_def py_isspace_def)
  from full_text_block_stripped [of "demo_result (ascii ''hello'') []" demo_app "demo_batch_env None"
      "ascii ''talk.mp4''" True True Map.empty "output_path demo_app (demo_batch_env None) (ascii ''talk.mp4'')"]
    ret clean
  show ?thesis by blast
qed



section \<open>Properties of the batch run\<close>

lemma process_loop_attempted:
  "attempted (process_loop f i file_paths p) = attempted p @ file_paths"
  by (induction file_paths arbitrary: i p) (auto simp: process_one_def split: sum.splits)

lemma process_loop_all_succeed:
  assumes "\<And>j. j < length file_paths \<Longrightarrow> \<exists>out. f (i + j) (file_paths ! j) = Inr out"
  shows "failed_files (process_loop f i file_paths p) = failed_files p
       \<and> map fst (processed_files (process_loop f i file_paths p))
           = map fst (processed_files p) @ file_paths"
  using assms
proof (induction file_paths arbitrary: i p)
  case Nil
  show ?case by simp
next
  case (Cons x xs)
  from Cons.prems [of 0] obtain out where out: "f i x = Inr out" by auto
  have rest: "\<And>j. j < length xs \<Longrightarrow> \<exists>out. f (Suc i + j) (xs ! j) = Inr out"
    using Cons.prems [of "Suc j" for j] by simp
  from Cons.IH [OF rest, of "process_one f i x p"] out show ?case
    by (simp add: process_one_def)
qed

lemma process_loop_one_failure:
  assumes "k < length file_paths"
    and "f (i + k) (file_paths ! k) = Inl err"
    and "\<And>j. j < length file_paths \<Longrightarrow> j \<noteq> k \<Longrightarrow> \<exists>out. f (i + j) (file_paths ! j) = Inr out"
  shows "failed_files (process_loop f i file_paths p) = failed_files p @ [(file_paths ! k, err)]
       \<and> map fst (processed_files (process_loop f i file_paths p))
           = map fst (processed_files p) @ take k file_paths @ drop (Suc k) file_paths"
  using assms
proof (induction file_paths arbitrary: i k p)
  case Nil
  then show ?case by simp
next
  case (Cons x xs)
  show ?case
  proof (cases k)
    case 0
    with Cons.prems(2) have fail: "f i x = Inl err" by simp
    have rest: "\<And>j. j < length xs \<Longrightarrow> \<exists>out. f (Suc i + j) (xs ! j) = Inr out"
      using Cons.prems(3) [of "Suc j" for j] 0 by simp
    from process_loop_all_succeed [of xs f "Suc i" "process_one f i x p", OF rest] fail 0
    show ?thesis by (simp add: process_one_def)
  next
    case (Suc k')
    from Cons.prems(3) [of 0] Suc obtain out where out: "f i x = Inr out" by auto
    have a: "k' < length xs" using Cons.prems(1) Suc by simp
    have b: "f (Suc i + k') (xs ! k') = Inl err" using Cons.prems(2) Suc by simp
    have c: "\<And>j. j < length xs \<Longrightarrow> j \<noteq> k' \<Longrightarrow> \<exists>out. f (Suc i + j) (xs ! j) = Inr out"
      using Cons.prems(3) [of "Suc j" for j] Suc by simp
    from Cons.IH [OF a b c, of "process_one f i x p"] out Suc show ?thesis
      by (simp add: process_one_def)
  qed
qed

text \<open>
  Claim C6. In a run of a new processor over \<open>file_paths\<close> in which the call of
  \<open>process_mp4\<close> for file \<open>k\<close> raises an exception and every other call returns, every
  file is attempted, in order; \<open>failed_files\<close> holds exactly file \<open>k\<close> with the text of its
  exception, the other files are in \<open>processed_files\<close>, and the summary counts one
  failure and lists exactly one failed file: the name of file \<open>k\<close> and its error.
\<close>

theorem process_files_isolates_failure:
  assumes "k < length file_paths"
    and "process_mp4 (Suc k) (file_paths ! k) = Inl err"
    and "\<And>j. j < length file_paths \<Longrightarrow> j \<noteq> k \<Longrightarrow> \<exists>out. process_mp4 (Suc j) (file_paths ! j) = Inr out"
  shows "attempted (fst (process_files process_mp4 env file_paths new_processor)) = file_paths
     \<and> failed_files (fst (process_files process_mp4 env file_paths new_processor))
         = [(file_paths ! k, err)]
     \<and> map fst (processed_files (fst (process_files process_mp4 env file_paths new_processor)))
         = take k file_paths @ drop (Suc k) file_paths
     \<and> failed_section env (fst (process_files process_mp4 env file_paths new_processor))
         = [[10] @ failed_heading,
            [32, 32, 10060, 32] @ path_name env (file_paths ! k) @ ascii '': '' @ err]
     \<and> snd (process_files process_mp4 env file_paths new_processor)
         = [[10] @ replicate 60 61,
            completed_heading,
            replicate 60 61,
            total_time_label @ seconds_text env @ [31186, 32, 40] @ minutes_text env @ [20998, 41],
            succeeded_label @ str_int (int (length file_paths) - 1) @ files_suffix,
            failed_label @ ascii ''1'' @ files_suffix]
           @ succeeded_section env (fst (process_files process_mp4 env file_paths new_processor))
           @ [[10] @ failed_heading,
              [32, 32, 10060, 32] @ path_name env (file_paths ! k) @ ascii '': '' @ err]"
proof -
  define p where "p = process_loop process_mp4 1 file_paths new_processor"
  have run: "process_files process_mp4 env file_paths new_processor = (p, print_summary env p)"
    by (simp add: process_files_def Let_def p_def)
  have att: "attempted p = file_paths"
    unfolding p_def by (simp add: process_loop_attempted new_processor_def)
  have b: "process_mp4 (1 + k) (file_paths ! k) = Inl err"
    using assms(2) by simp
  have c: "\<And>j. j < length file_paths \<Longrightarrow> j \<noteq> k \<Longrightarrow> \<exists>out. process_mp4 (1 + j) (file_paths ! j) = Inr out"
    using assms(3) by simp
  from process_loop_one_failure [of k file_paths process_mp4 1 err new_processor] assms(1) b c
  have fl: "failed_files p = [(file_paths ! k, err)]"
    and pr: "map fst (processed_files p) = take k file_paths @ drop (Suc k) file_paths"
    unfolding p_def by (simp_all add: new_processor_def)
  have fs: "failed_section env p
      = [[10] @ failed_heading, [32, 32, 10060, 32] @ path_name env (file_paths ! k) @ ascii '': '' @ err]"
    by (simp add: failed_section_def fl)
  have "length (map fst (processed_files p)) = length (take k file_paths @ drop (Suc k) file_paths)"
    using pr by simp
  then have n: "int (length (processed_files p)) = int (length file_paths) - 1"
    using assms(1) by auto
  have one: "str_int (int (length (failed_files p))) = ascii ''1''"
    by (simp add: fl str_int_def digits.simps ascii_def)
  have summary: "print_summary env p
     = [[10] @ replicate 60 61,
            completed_heading,
            replicate 60 61,
            total_time_label @ seconds_text env @ [31186, 32, 40] @ minutes_text env @ [20998, 41],
            succeeded_label @ str_int (int (length file_paths) - 1) @ files_suffix,
            failed_label @ ascii ''1'' @ files_suffix]
           @ succeeded_section env p
           @ [[10] @ failed_heading,
              [32, 32, 10060, 32] @ path_name env (file_paths ! k) @ ascii '': '' @ err]"
    unfolding print_summary_def n one fs ..
  show ?thesis
    unfolding run fst_conv snd_conv
    using att fl pr fs summary by simp
qed

theorem process_files_isolates_failure_witness:
  "1 < length demo_paths
   \<and> demo_process_mp4 (Suc 1) (demo_paths ! 1) = Inl (ascii ''decode failed'')
   \<and> demo_process_mp4 (Suc 0) (demo_paths ! 0) = Inr (ascii ''a.mp4.txt'')
   \<and> demo_process_mp4 (Suc 2) (demo_paths ! 2) = Inr (ascii ''c.mp4.txt'')
   \<and> attempted (fst (process_files demo_process_mp4 demo_summary_env demo_paths new_processor))
        = [ascii ''a.mp4'', ascii ''b.mp4'', ascii ''c.mp4'']
   \<and> failed_files (fst (process_files demo_process_mp4 demo_summary_env demo_paths new_processor))
        = [(ascii ''b.mp4'', ascii ''decode failed'')]
   \<and> map fst (processed_files (fst (process_files demo_process_mp4 demo_summary_env demo_paths new_processor)))
        = [ascii ''a.mp4'', ascii ''c.mp4'']
   \<and> failed_section demo_summary_env
        (fst (process_files demo_process_mp4 demo_summary_env demo_paths new_processor))
        = [[10] @ failed_heading, [32, 32, 10060, 32] @ ascii ''b.mp4: decode failed'']"
proof -
  have a: "1 < length demo_paths"
    by (simp add: demo_paths_def)
  have b: "demo_process_mp4 (Suc 1) (demo_paths ! 1) = Inl (ascii ''decode failed'')"
    by (simp add: demo_process_mp4_def)
  have c: "\<exists>out. demo_process_mp4 (Suc j) (demo_paths ! j) = Inr out" if "j < length demo_paths" "j \<noteq> 1" for j
    using that by (simp add: demo_process_mp4_def)
  have d: "demo_process_mp4 (Suc 0) (demo_paths ! 0) = Inr (ascii ''a.mp4.txt'')"
    "demo_process_mp4 (Suc 2) (demo_paths ! 2) = Inr (ascii ''c.mp4.txt'')"
    by (simp_all add: demo_process_mp4_def demo_paths_def ascii_def)
  have e: "demo_paths ! 1 = ascii ''b.mp4''" "take 1 demo_paths @ drop (Suc 1) demo_paths = [ascii ''a.mp4'', ascii ''c.mp4'']"
    "path_name demo_summary_env (ascii ''b.mp4'') @ ascii '': '' @ ascii ''decode failed'' = ascii ''b.mp4: decode failed''"
    by (simp_all add: demo_paths_def demo_summary_env_def ascii_def)
  from process_files_isolates_failure [of 1 demo_paths demo_process_mp4 "ascii ''decode failed''" demo_summary_env,
      OF a b c]
  have "attempted (fst (process_files demo_process_mp4 demo_summary_env demo_paths new_processor)) = demo_paths"
    "failed_files (fst (process_files demo_process_mp4 demo_summary_env demo_paths new_processor))
        = [(demo_paths ! 1, ascii ''decode failed'')]"
    "map fst (processed_files (fst (process_files demo_process_mp4 demo_summary_env demo_paths new_processor)))
        = take 1 demo_paths @ drop (Suc 1) demo_paths"
    "failed_section demo_summary_env
        (fst (process_files demo_process_mp4 demo_summary_env demo_paths new_processor))
        = [[10] @ failed_heading,
           [32, 32, 10060, 32] @ path_name demo_summary_env (demo_paths ! 1) @ ascii '': '' @ ascii ''decode failed'']"
    by blast+
  with a b d e show ?thesis
    by (simp add: demo_paths_def)
qed

section \<open>The speaker segmenter on the store\<close>

lemma and_then_Inr [simp]: "and_then (Inr x) f = f x"
  by (simp add: and_then_def)

lemma and_then_Inl [simp]: "and_then (Inl e) f = Inl e"
  by (simp add: and_then_def)

lemma for_each_snoc:
  "for_each body (xs @ [i]) st = and_then (for_each body xs st) (body i)"
proof (induction xs arbitrary: st)
  case Nil
  show ?case by (cases "body i st") simp_all
next
  case (Cons x xs)
  show ?case by (cases "body x st") (simp_all add: Cons)
qed

lemma store_speaker_step_run:
  assumes seg: "segments < length h" "h ! segments = PyList items"
    and items: "\<And>a. a \<in> set items \<Longrightarrow> a < length h \<and> (\<exists>d. h ! a = Dict d)"
    and i: "i < length items"
    and lens: "length out = i" "length acc = i"
  shows "store_speaker_step segments min_pause (length h) i
           (h @ [PyList out] @ map Dict acc, c)
       = Inr (h @ [PyList (out @ [length h + 1 + i])]
                @ map Dict (snd (speaker_step (map (dict_at h) items) min_pause i (c, acc))),
              fst (speaker_step (map (dict_at h) items) min_pause i (c, acc)))"
proof -
  let ?H = "h @ [PyList out] @ map Dict acc"
  have gl: "get_list ?H segments = Inr items"
    using seg by (simp add: get_list_def nth_append)
  have gi: "get_item items i = Inr (items ! i)"
    using i by (simp add: get_item_def)
  have valid: "j < length items \<Longrightarrow> get_dict ?H (items ! j) = Inr (dict_at h (items ! j))" for j
    using items [of "items ! j"] by (auto simp: get_dict_def dict_at_def nth_append)
  have gp: "0 < i \<Longrightarrow> get_item items (i - 1) = Inr (items ! (i - 1))"
    using i by (simp add: get_item_def)
  have lenH: "length ?H = length h + 1 + i"
    using lens by simp
  have upd: "(?H @ [Dict (dict_at h (items ! i))])[length h + 1 + i := Dict x] = ?H @ [Dict x]" for x
    using lenH by (metis list_update_length)
  have sp: "set_speaker (?H @ [Dict (dict_at h (items ! i))]) (length h + 1 + i) k
      = Inr (?H @ [Dict ((dict_at h (items ! i))\<lparr>seg_speaker := Some k\<rparr>)])" for k
    unfolding set_speaker_def get_dict_def using lenH upd
    by (simp add: nth_append)
  have la: "list_append (?H @ [Dict x]) (length h) (length h + 1 + i)
      = Inr (h @ [PyList (out @ [length h + 1 + i])] @ map Dict acc @ [Dict x])" for x
    by (simp add: list_append_def get_list_def nth_append list_update_append)
  have tail: "(case alloc ?H (Dict (dict_at h (items ! i))) of (h1, segment_with_speaker) \<Rightarrow>
           and_then (set_speaker h1 segment_with_speaker k) (\<lambda>h2.
           and_then (list_append h2 (length h) segment_with_speaker) (\<lambda>h3. Inr (h3, k))))
      = Inr (h @ [PyList (out @ [length h + 1 + i])] @ map Dict acc
               @ [Dict ((dict_at h (items ! i))\<lparr>seg_speaker := Some k\<rparr>)], k)" for k
    unfolding alloc_def prod.case lenH sp and_then_Inr la ..
  have head: "store_speaker_step segments min_pause (length h) i (?H, c)
      = and_then
          (if i > 0 then
             and_then (get_item items (i - 1)) (\<lambda>prev_ref.
             and_then (get_dict ?H prev_ref) (\<lambda>prev.
               (let prev_end = seg_end prev;
                    current_start = seg_start (dict_at h (items ! i));
                    pause_duration = current_start - prev_end
                in Inr (if pause_duration \<ge> min_pause then c + 1 else c))))
           else Inr c)
          (\<lambda>k. Inr (h @ [PyList (out @ [length h + 1 + i])] @ map Dict acc
               @ [Dict ((dict_at h (items ! i))\<lparr>seg_speaker := Some k\<rparr>)], k))"
    unfolding store_speaker_step_def prod.case gl and_then_Inr gi valid [OF i] tail ..
  show ?thesis
  proof (cases "0 < i")
    case False
    then have "i = 0" by simp
    then show ?thesis
      unfolding head using i by (simp add: speaker_step_def)
  next
    case True
    have p: "get_item items (i - 1) = Inr (items ! (i - 1))"
      "get_dict ?H (items ! (i - 1)) = Inr (dict_at h (items ! (i - 1)))"
      using gp [OF True] valid [of "i - 1"] i by simp_all
    show ?thesis
      unfolding head using True i p by (simp add: speaker_step_def Let_def)
  qed
qed

lemma detect_speakers_length: "length (detect_speakers segments min_pause) = length segments"
  by (simp add: detect_speakers_def speaker_loop_length)

lemma detect_speakers_single:
  "detect_speakers [segment] min_pause = [segment\<lparr>seg_speaker := Some 1\<rparr>]"
  by (simp add: detect_speakers_def speaker_step_def)

lemma store_speaker_loop:
  assumes seg: "segments < length h" "h ! segments = PyList items"
    and items: "\<And>a. a \<in> set items \<Longrightarrow> a < length h \<and> (\<exists>d. h ! a = Dict d)"
  shows "n \<le> length items \<Longrightarrow>
     for_each (store_speaker_step segments min_pause (length h)) [0..<n] (h @ [PyList []], 1)
       = Inr (h @ [PyList (map (\<lambda>j. length h + 1 + j) [0..<n])]
                @ map Dict (snd (fold (speaker_step (map (dict_at h) items) min_pause) [0..<n] (1, []))),
              fst (fold (speaker_step (map (dict_at h) items) min_pause) [0..<n] (1, [])))"
proof (induction n)
  case 0
  show ?case by simp
next
  case (Suc n)
  let ?F = "fold (speaker_step (map (dict_at h) items) min_pause) [0..<n] (1, [])"
  from Suc.prems have n: "n < length items" by simp
  have len: "length (map (\<lambda>j. length h + 1 + j) [0..<n]) = n" "length (snd ?F) = n"
    by (simp_all add: speaker_loop_length)
  have IH: "for_each (store_speaker_step segments min_pause (length h)) [0..<n] (h @ [PyList []], 1)
       = Inr (h @ [PyList (map (\<lambda>j. length h + 1 + j) [0..<n])] @ map Dict (snd ?F), fst ?F)"
    using Suc.IH n by simp
  have "for_each (store_speaker_step segments min_pause (length h)) [0..<Suc n] (h @ [PyList []], 1)
      = store_speaker_step segments min_pause (length h) n
          (h @ [PyList (map (\<lambda>j. length h + 1 + j) [0..<n])] @ map Dict (snd ?F), fst ?F)"
    unfolding upt_Suc_append [OF le0] for_each_snoc IH and_then_Inr ..
  also have "\<dots> = Inr (h @ [PyList (map (\<lambda>j. length h + 1 + j) [0..<n] @ [length h + 1 + n])]
                @ map Dict (snd (speaker_step (map (dict_at h) items) min_pause n (fst ?F, snd ?F))),
              fst (speaker_step (map (dict_at h) items) min_pause n (fst ?F, snd ?F)))"
    by (rule store_speaker_step_run [OF seg items n len])
  finally show ?case
    by (simp add: speaker_loop_Suc)
qed

lemma detect_speakers_store_run:
  assumes seg: "segments < length h" "h ! segments = PyList items"
    and items: "\<And>a. a \<in> set items \<Longrightarrow> a < length h \<and> (\<exists>d. h ! a = Dict d)"
  shows "detect_speakers_store h segments min_pause
     = Inr (h @ [PyList (map (\<lambda>j. length h + 1 + j) [0..<length items])]
              @ map Dict (detect_speakers (map (dict_at h) items) min_pause),
            length h)"
proof (cases "items = []")
  case True
  with seg show ?thesis
    by (simp add: detect_speakers_store_def get_list_def alloc_def detect_speakers_def)
next
  case False
  have gl: "get_list h segments = Inr items"
    using seg by (simp add: get_list_def)
  from store_speaker_loop [OF seg items, of "length items" min_pause] False gl
  show ?thesis
    by (simp add: detect_speakers_store_def alloc_def detect_speakers_def)
qed

text \<open>
  Claim C8. On a store in which \<open>segments\<close> is a list of dicts, \<open>detect_speakers\<close> returns
  without raising; every object that existed before the call, the input list and its
  dicts among them, is unchanged; the result is a new list of new dicts, as long as the
  input list; the dicts are those of the pure function \<open>detect_speakers\<close> on the input
  segments; the result is empty exactly when the input is empty; and a single segment
  gets speaker id 1.
\<close>

theorem detect_speakers_store_pure:
  assumes seg: "segments < length h" "h ! segments = PyList items"
    and items: "\<And>a. a \<in> set items \<Longrightarrow> a < length h \<and> (\<exists>d. h ! a = Dict d)"
  shows "\<exists>h' out. detect_speakers_store h segments min_pause = Inr (h', length h)
     \<and> take (length h) h' = h
     \<and> length h < length h' \<and> h' ! length h = PyList out
     \<and> length out = length items
     \<and> (\<forall>a\<in>set out. length h < a \<and> a < length h')
     \<and> map ((!) h') out = map Dict (detect_speakers (map (dict_at h) items) min_pause)
     \<and> (out = [] \<longleftrightarrow> items = [])
     \<and> (\<forall>a. items = [a] \<longrightarrow> map ((!) h') out = [Dict ((dict_at h a)\<lparr>seg_speaker := Some 1\<rparr>)])"
proof -
  define R where "R = detect_speakers (map (dict_at h) items) min_pause"
  define out where "out = map (\<lambda>j. length h + 1 + j) [0..<length items]"
  define h' where "h' = h @ [PyList out] @ map Dict R"
  have lenR: "length R = length items"
    by (simp add: R_def detect_speakers_length)
  have run: "detect_speakers_store h segments min_pause = Inr (h', length h)"
    unfolding h'_def out_def R_def by (rule detect_speakers_store_run [OF seg items])
  have a: "take (length h) h' = h" "length h < length h'" "h' ! length h = PyList out"
    "length out = length items"
    by (simp_all add: h'_def out_def)
  have b: "\<forall>a\<in>set out. length h < a \<and> a < length h'"
    by (auto simp: out_def h'_def lenR)
  have c: "map ((!) h') out = map Dict R"
  proof (rule nth_equalityI)
    show "length (map ((!) h') out) = length (map Dict R)"
      by (simp add: out_def lenR)
  next
    fix j assume "j < length (map ((!) h') out)"
    then have j: "j < length items" by (simp add: out_def)
    then have "out ! j = length h + 1 + j" by (simp add: out_def)
    with j lenR show "map ((!) h') out ! j = map Dict R ! j"
      by (simp add: h'_def out_def nth_append)
  qed
  have d: "out = [] \<longleftrightarrow> items = []"
    by (simp add: out_def)
  have e: "\<forall>a. items = [a] \<longrightarrow> map ((!) h') out = [Dict ((dict_at h a)\<lparr>seg_speaker := Some 1\<rparr>)]"
    unfolding c by (simp add: R_def detect_speakers_single)
  from run a b c d e show ?thesis
    unfolding R_def by blast
qed


theorem detect_speakers_store_pure_witness:
  "3 < length demo_store \<and> demo_store ! 3 = PyList [0, 1, 2]
   \<and> demo_store ! 0 = Dict (timed 0 1) \<and> demo_store ! 1 = Dict (timed 1.5 2)
   \<and> demo_store ! 2 = Dict (timed 5 6)
   \<and> (\<exists>h' out. detect_speakers_store demo_store 3 2.0 = Inr (h', length demo_store)
     \<and> take (length demo_store) h' = demo_store
     \<and> length demo_store < length h' \<and> h' ! length demo_store = PyList out
     \<and> length out = length [0::nat, 1, 2]
     \<and> (\<forall>a\<in>set out. length demo_store < a \<and> a < length h')
     \<and> map ((!) h') out = map Dict (detect_speakers (map (dict_at demo_store) [0, 1, 2]) 2.0)
     \<and> (out = [] \<longleftrightarrow> [0::nat, 1, 2] = []))"
proof -
  have a: "3 < length demo_store" and b: "demo_store ! 3 = PyList [0, 1, 2]"
    and c: "demo_store ! 0 = Dict (timed 0 1)" "demo_store ! 1 = Dict (timed 1.5 2)"
      "demo_store ! 2 = Dict (timed 5 6)"
    by (simp_all add: demo_store_def)
  have items: "a \<in> set [0::nat, 1, 2] \<Longrightarrow> a < length demo_store \<and> (\<exists>d. demo_store ! a = Dict d)" for a
    by (auto simp: demo_store_def)
  have "\<exists>h' out. detect_speakers_store demo_store 3 2.0 = Inr (h', length demo_store)
     \<and> take (length demo_store) h' = demo_store
     \<and> length demo_store < length h' \<and> h' ! length demo_store = PyList out
     \<and> length out = length [0::nat, 1, 2]
     \<and> (\<forall>a\<in>set out. length demo_store < a \<and> a < length h')
     \<and> map ((!) h') out = map Dict (detect_speakers (map (dict_at demo_store) [0, 1, 2]) 2.0)
     \<and> (out = [] \<longleftrightarrow> [0::nat, 1, 2] = [])
     \<and> (\<forall>a. [0::nat, 1, 2] = [a] \<longrightarrow>
           map ((!) h') out = [Dict ((dict_at demo_store a)\<lparr>seg_speaker := Some 1\<rparr>)])"
    by (rule detect_speakers_store_pure [OF a b]) (erule items)
  then obtain h' out where r:
    "detect_speakers_store demo_store 3 2.0 = Inr (h', length demo_store)"
    "take (length demo_store) h' = demo_store"
    "length demo_store < length h'" "h' ! length demo_store = PyList out"
    "length out = length [0::nat, 1, 2]"
    "\<forall>a\<in>set out. length demo_store < a \<and> a < length h'"
    "map ((!) h') out = map Dict (detect_speakers (map (dict_at demo_store) [0, 1, 2]) 2.0)"
    "out = [] \<longleftrightarrow> [0::nat, 1, 2] = []"
    by (elim exE conjE)
  have "\<exists>h' out. detect_speakers_store demo_store 3 2.0 = Inr (h', length demo_store)
     \<and> take (length demo_store) h' = demo_store
     \<and> length demo_store < length h' \<and> h' ! length demo_store = PyList out
     \<and> length out = length [0::nat, 1, 2]
     \<and> (\<forall>a\<in>set out. length demo_store < a \<and> a < length h')
     \<and> map ((!) h') out = map Dict (detect_speakers (map (dict_at demo_store) [0, 1, 2]) 2.0)
     \<and> (out = [] \<longleftrightarrow> [0::nat, 1, 2] = [])"
    using r by (intro exI [of _ h'] exI [of _ out] conjI)
  with a b c show ?thesis
    by (intro conjI)
qed

end
